theory Spec2Isabelle
  imports Main "HOL-Library.Sublist" "HOL-Library.Word" "HOL-Library.Multiset"
begin

section \<open>The URL objects of the platform\<close>

text \<open>
  The crawler script (\<^verbatim>\<open>src/unnamed/part_001\<close>) builds every URL object with the
  platform's \<^verbatim>\<open>new URL(...)\<close>. A URL object is the URL record of the WHATWG URL
  standard; the script reads its \<^verbatim>\<open>protocol\<close>, \<^verbatim>\<open>hostname\<close>, \<^verbatim>\<open>pathname\<close>,
  \<^verbatim>\<open>search\<close> and \<^verbatim>\<open>hash\<close> getters, assigns \<^verbatim>\<open>hash = ""\<close> and serialises
  with \<^verbatim>\<open>toString()\<close>. The record keeps the path in its serialised form. A missing
  query or fragment (\<open>None\<close>) differs from an empty one (\<open>Some []\<close>): both read as
  the empty string through the getters, only the second leaves its delimiter in the
  serialisation.

  The strings that name URLs and files are \<^typ>\<open>string\<close>: every component of a
  serialised URL is ASCII, so one \<^typ>\<open>char\<close> stands for one UTF-16 code unit of the
  script's strings. The text of a page is not ASCII: it is a list of code units (see
  \<open>code_units\<close> below).
\<close>

record url =
  scheme :: string
  username :: string
  password :: string
  host :: "string option"
  port :: "nat option"
  path :: string
  query :: "string option"
  fragment :: "string option"

text \<open>
  Parsing is the platform's: the parser is a parameter of every function that calls
  \<^verbatim>\<open>new URL\<close>. \<open>URL_new\<close> is \<^verbatim>\<open>new URL(s)\<close>, \<open>URL_new_base\<close> is
  \<^verbatim>\<open>new URL(s, base)\<close>; \<open>None\<close> is the \<^verbatim>\<open>TypeError\<close> the constructor throws.
\<close>

record platform =
  URL_new :: "string \<Rightarrow> url option"
  URL_new_base :: "string \<Rightarrow> string \<Rightarrow> url option"

text \<open>A number in decimal, as string interpolation writes it.\<close>

function string_of_nat :: "nat \<Rightarrow> string" where
  "string_of_nat n =
     (if n < 10 then [''0123456789'' ! n]
      else string_of_nat (n div 10) @ [''0123456789'' ! (n mod 10)])"
  by pat_completeness auto
termination
  by (relation "measure id") auto

declare string_of_nat.simps [simp del]

definition protocol :: "url \<Rightarrow> string" where
  "protocol u = scheme u @ '':''"

definition hostname :: "url \<Rightarrow> string" where
  "hostname u = (case host u of None \<Rightarrow> [] | Some h \<Rightarrow> h)"

definition pathname :: "url \<Rightarrow> string" where
  "pathname u = path u"

definition search :: "url \<Rightarrow> string" where
  "search u = (case query u of None \<Rightarrow> [] | Some q \<Rightarrow> if q = [] then [] else ''?'' @ q)"

definition hash :: "url \<Rightarrow> string" where
  "hash u = (case fragment u of None \<Rightarrow> [] | Some f \<Rightarrow> if f = [] then [] else ''#'' @ f)"

text \<open>The part of the serialisation before the fragment.\<close>

definition href_no_fragment :: "url \<Rightarrow> string" where
  "href_no_fragment u =
     scheme u @ '':'' @
     (case host u of
        Some h \<Rightarrow>
          ''//'' @
          (if username u \<noteq> [] \<or> password u \<noteq> []
           then username u @ (if password u \<noteq> [] then '':'' @ password u else []) @ ''@''
           else []) @
          h @
          (case port u of None \<Rightarrow> [] | Some p \<Rightarrow> '':'' @ string_of_nat p)
      | None \<Rightarrow> (if take 2 (path u) = ''//'' then ''/.'' else [])) @
     path u @
     (case query u of None \<Rightarrow> [] | Some q \<Rightarrow> ''?'' @ q)"

text \<open>\<^verbatim>\<open>urlObj.toString()\<close>, the URL serialiser.\<close>

definition toString :: "url \<Rightarrow> string" where
  "toString u =
     href_no_fragment u @ (case fragment u of None \<Rightarrow> [] | Some f \<Rightarrow> ''#'' @ f)"

text \<open>
  In the URL standard a path is a list of segments or an opaque string
  (\<^verbatim>\<open>data:text/plain,hi\<close>, \<^verbatim>\<open>mailto:a@b\<close>). The parser gives an opaque path
  only to a URL without host, when what follows the scheme does not begin with a slash;
  a list of segments, serialised, begins with a slash, or is empty next to a host. So the
  serialised path tells: the path is opaque when there is no host and the path does not
  begin with a slash.
\<close>

definition opaque_path :: "url \<Rightarrow> bool" where
  "opaque_path u = (host u = None \<and> \<not> prefix ''/'' (path u))"

definition strip_trailing_spaces :: "string \<Rightarrow> string" where
  "strip_trailing_spaces s = rev (dropWhile (\<lambda>c. c = CHR '' '') (rev s))"

text \<open>
  \<^verbatim>\<open>urlObj.hash = ""\<close>: the setter, given the empty string, removes the fragment, and
  then strips the trailing spaces of an opaque path when the URL has no query either.
\<close>

definition clear_hash :: "url \<Rightarrow> url" where
  "clear_hash u =
     (let u' = u\<lparr>fragment := None\<rparr>
      in if opaque_path u' \<and> query u' = None
         then u'\<lparr>path := strip_trailing_spaces (path u')\<rparr>
         else u')"

section \<open>Configuration\<close>

definition START_URL :: string where
  "START_URL = ''https://sites.google.com/zen.ac.jp/zen-gakuseibinran/home''"

definition ALLOWED_PATH_PREFIX :: string where
  "ALLOWED_PATH_PREFIX = ''/zen.ac.jp/zen-gakuseibinran/''"

definition DELAY_MS :: nat where
  "DELAY_MS = 500"

definition MAX_CONCURRENCY :: nat where
  "MAX_CONCURRENCY = 5"

section \<open>Helper functions\<close>

text \<open>
  \<^verbatim>\<open>normalizeUrl\<close>: the \<^verbatim>\<open>catch\<close> branch logs and returns the argument.
\<close>

definition normalizeUrl :: "platform \<Rightarrow> string \<Rightarrow> string" where
  "normalizeUrl P url =
     (case URL_new P url of
        Some urlObj \<Rightarrow> toString (clear_hash urlObj)
      | None \<Rightarrow> url)"

text \<open>
  \<^verbatim>\<open>isValidUrlToCrawl\<close>: three early returns, and \<^verbatim>\<open>false\<close> from the
  \<^verbatim>\<open>catch\<close> branch.
\<close>

definition isValidUrlToCrawl :: "platform \<Rightarrow> string \<Rightarrow> url \<Rightarrow> bool" where
  "isValidUrlToCrawl P url baseUrlObj =
     (case URL_new P url of
        Some currentUrlObj \<Rightarrow>
          if protocol currentUrlObj \<notin> set [''http:'', ''https:''] then False
          else if hostname currentUrlObj \<noteq> hostname baseUrlObj then False
          else if \<not> prefix ALLOWED_PATH_PREFIX (pathname currentUrlObj) then False
          else True
      | None \<Rightarrow> False)"

text \<open>
  The three replacements of \<^verbatim>\<open>urlToFilename\<close>.
  \<^verbatim>\<open>replace(/^\/|\/$/g, "")\<close> deletes a slash at the start and a slash at the end
  (the scan is left to right, so a lone slash counts as the one at the start).
\<close>

definition strip_slashes :: "string \<Rightarrow> string" where
  "strip_slashes s =
     (let t = (case s of c # r \<Rightarrow> if c = CHR ''/'' then r else s | [] \<Rightarrow> s)
      in if t \<noteq> [] \<and> last t = CHR ''/'' then butlast t else t)"

text \<open>\<^verbatim>\<open>replace(/\//g, "_")\<close>\<close>

definition slashes_to_underscores :: "string \<Rightarrow> string" where
  "slashes_to_underscores s = map (\<lambda>c. if c = CHR ''/'' then CHR ''_'' else c) s"

text \<open>The character class \<^verbatim>\<open>[a-zA-Z0-9_\-\.]\<close>.\<close>

definition filename_char :: "char \<Rightarrow> bool" where
  "filename_char c =
     (let n = (of_char c :: nat)
      in (97 \<le> n \<and> n \<le> 122) \<or> (65 \<le> n \<and> n \<le> 90) \<or> (48 \<le> n \<and> n \<le> 57) \<or>
         c = CHR ''_'' \<or> c = CHR ''-'' \<or> c = CHR ''.'')"

text \<open>\<^verbatim>\<open>replace(/[^a-zA-Z0-9_\-\.]/g, "_")\<close>\<close>

definition replace_unsafe :: "string \<Rightarrow> string" where
  "replace_unsafe s = map (\<lambda>c. if filename_char c then c else CHR ''_'') s"

text \<open>
  The name before truncation: the chain of replacements on
  \<^verbatim>\<open>pathname + search + hash\<close>, then \<^verbatim>\<open>|| "index"\<close>.
\<close>

definition raw_filename :: "url \<Rightarrow> string" where
  "raw_filename urlObj =
     (let r = replace_unsafe (slashes_to_underscores (strip_slashes
                (pathname urlObj @ search urlObj @ hash urlObj)))
      in if r = [] then ''index'' else r)"

text \<open>
  \<^verbatim>\<open>urlToFilename\<close>. The \<^verbatim>\<open>catch\<close> branch reads the clock: \<open>now\<close> is the value
  of \<^verbatim>\<open>Date.now()\<close> at the call.
\<close>

definition urlToFilename :: "platform \<Rightarrow> nat \<Rightarrow> string \<Rightarrow> string \<Rightarrow> string" where
  "urlToFilename P now url extension =
     (case URL_new P url of
        Some urlObj \<Rightarrow>
          (let filename = raw_filename urlObj;
               maxLength = 100;
               filename = (if length filename > maxLength
                           then drop (length filename - maxLength) filename
                           else filename)
           in filename @ extension)
      | None \<Rightarrow> ''invalid_url_'' @ string_of_nat now @ extension)"

section \<open>Fetching with retry\<close>

text \<open>
  Thrown values. \<open>TypeError\<close> is what the URL constructor and a failed network request
  throw; \<open>HttpError status url\<close> is \<^verbatim>\<open>new Error(`HTTP error ${status} for ${url}`)\<close>;
  \<open>FetchFailed url retries\<close> is the error after the loop of \<^verbatim>\<open>fetchWithRetry\<close>;
  \<open>IOError\<close> is any failure of the file system, the body stream or the HTML parser.
\<close>

datatype error =
    TypeError string
  | HttpError nat string
  | FetchFailed string nat
  | IOError string

text \<open>
  The body of a response and the text of a page are JavaScript strings of any content:
  lists of UTF-16 code units, each a word of 16 bits. \<open>units\<close> writes an ASCII string
  as one.
\<close>

type_synonym code_units = "16 word list"

definition units :: "string \<Rightarrow> code_units" where
  "units s = map of_char s"

text \<open>
  A response: its status and what \<^verbatim>\<open>response.text()\<close> gives (the read can fail).
\<close>

record response =
  status :: nat
  text_result :: "error + code_units"

definition ok :: "response \<Rightarrow> bool" where
  "ok r = (200 \<le> status r \<and> status r \<le> 299)"

text \<open>What one call of \<^verbatim>\<open>fetch\<close> does: it rejects, or resolves to a response.\<close>

datatype fetch_outcome = Rejected error | Resolved response

text \<open>The effects of \<^verbatim>\<open>fetchWithRetry\<close>, in the order they happen.\<close>

datatype effect = Sleep nat | Fetch string

text \<open>
  One attempt: the body of the \<^verbatim>\<open>try\<close> block after the politeness sleep. A response
  that is not ok is thrown as an error.
\<close>

definition attempt :: "fetch_outcome \<Rightarrow> string \<Rightarrow> error + response" where
  "attempt out url =
     (case out of
        Rejected e \<Rightarrow> Inl e
      | Resolved r \<Rightarrow> if \<not> ok r then Inl (HttpError (status r) url) else Inr r)"

text \<open>
  The \<^verbatim>\<open>for\<close> loop of \<^verbatim>\<open>fetchWithRetry\<close> from counter \<open>i\<close> on. \<open>net k\<close> is the
  outcome of the \<open>k\<close>-th request of the call (the loop issues one request per round).
  The result is what the call returns or throws, with its effects.
\<close>

function fetch_loop ::
  "(nat \<Rightarrow> fetch_outcome) \<Rightarrow> string \<Rightarrow> nat \<Rightarrow> nat \<Rightarrow> nat \<Rightarrow> (error + response) \<times> effect list"
where
  "fetch_loop net url retries delay i =
     (if i < retries then
        (case attempt (net i) url of
           Inr r \<Rightarrow> (Inr r, [Sleep DELAY_MS, Fetch url])
         | Inl e \<Rightarrow>
             if Suc i = retries then (Inl e, [Sleep DELAY_MS, Fetch url])
             else
               (let (res, effs) = fetch_loop net url retries delay (Suc i)
                in (res, [Sleep DELAY_MS, Fetch url, Sleep (delay * (i + 1))] @ effs)))
      else (Inl (FetchFailed url retries), []))"
  by pat_completeness auto
termination
  by (relation "measure (\<lambda>(net, url, retries, delay, i). retries - i)") auto

declare fetch_loop.simps [simp del]

definition fetchWithRetry ::
  "(nat \<Rightarrow> fetch_outcome) \<Rightarrow> string \<Rightarrow> nat \<Rightarrow> nat \<Rightarrow> (error + response) \<times> effect list"
where
  "fetchWithRetry net url retries delay = fetch_loop net url retries delay 0"

section \<open>Processing one page\<close>

text \<open>
  An entry of \<^verbatim>\<open>scrapedData\<close>, \<^verbatim>\<open>{ url, content }\<close> (the fields are prefixed:
  \<open>url\<close> is the record type above).
\<close>

record scraped =
  entry_url :: string
  entry_content :: code_units

text \<open>The two global variables of the script.\<close>

record globals =
  visitedUrls :: "string set"
  scrapedData :: "scraped list"

text \<open>
  What the script reads of a parsed document: the text of the first element matching
  \<^verbatim>\<open>[role="main"], #main-content, .main-content\<close> (\<open>None\<close>: no match), the text of
  \<^verbatim>\<open>document.body\<close> (\<open>None\<close>: no body), and the \<^verbatim>\<open>href\<close> attribute of every
  \<^verbatim>\<open>a\<close> element in document order (\<open>None\<close>: no such attribute).
\<close>

record document =
  mainContent :: "code_units option"
  body :: "code_units option"
  links :: "string option list"

text \<open>
  The world one call of \<^verbatim>\<open>processUrl\<close> meets at its awaits and library calls:
  the network, the HTML parser (it throws, or gives a document or \<^verbatim>\<open>null\<close>), the
  file system and the clock. \<open>OUTPUT_DIR\<close> is computed from the date at start-up. The
  file is written at \<^verbatim>\<open>join(OUTPUT_DIR, textFilename)\<close>: \<open>writeTextFile\<close> takes the
  two parts of the path.
\<close>

record world =
  net :: "nat \<Rightarrow> fetch_outcome"
  parseFromString :: "code_units \<Rightarrow> error + document option"
  OUTPUT_DIR :: string
  ensureDir :: "string \<Rightarrow> error option"
  writeTextFile :: "string \<Rightarrow> string \<Rightarrow> code_units \<Rightarrow> error option"
  now :: nat

text \<open>
  \<^verbatim>\<open>trim()\<close> removes, at both ends, the white space and the line terminators of
  ECMAScript: tab, line feed, vertical tab, form feed, carriage return, space, no-break
  space (U+00A0), U+1680, U+2000 to U+200A, the line and paragraph separators (U+2028,
  U+2029), U+202F, U+205F, the ideographic space (U+3000) and the byte order mark (U+FEFF).
\<close>

definition is_space :: "16 word \<Rightarrow> bool" where
  "is_space c =
     (c \<in> set [0x09, 0x0A, 0x0B, 0x0C, 0x0D, 0x20, 0xA0, 0x1680, 0x2028, 0x2029, 0x202F,
               0x205F, 0x3000, 0xFEFF] \<or>
      (0x2000 \<le> c \<and> c \<le> 0x200A))"

definition trim :: "code_units \<Rightarrow> code_units" where
  "trim s = rev (dropWhile is_space (rev (dropWhile is_space s)))"

text \<open>
  \<^verbatim>\<open>(mainContent || document.body)?.textContent?.trim() || ""\<close>
\<close>

definition textContent :: "document \<Rightarrow> code_units" where
  "textContent d =
     (case mainContent d of
        Some t \<Rightarrow> trim t
      | None \<Rightarrow> (case body d of Some t \<Rightarrow> trim t | None \<Rightarrow> []))"

text \<open>
  The loop over the links. Each round has its own \<^verbatim>\<open>try\<close>: a throwing
  \<^verbatim>\<open>new URL(href, url)\<close> (or \<^verbatim>\<open>new URL(START_URL)\<close>) skips that link only.
\<close>

fun collect_links ::
  "platform \<Rightarrow> string set \<Rightarrow> string \<Rightarrow> string option list \<Rightarrow> string list \<Rightarrow> string list"
where
  "collect_links P visited url [] newUrlsFound = newUrlsFound"
| "collect_links P visited url (href # rest) newUrlsFound =
     collect_links P visited url rest
       (case href of
          None \<Rightarrow> newUrlsFound
        | Some h \<Rightarrow>
            if h = [] then newUrlsFound
            else
              (case URL_new_base P h url of
                 None \<Rightarrow> newUrlsFound
               | Some l \<Rightarrow>
                   (let absoluteUrl = normalizeUrl P (toString l)
                    in case URL_new P START_URL of
                         None \<Rightarrow> newUrlsFound
                       | Some b \<Rightarrow>
                           if isValidUrlToCrawl P absoluteUrl b \<and> absoluteUrl \<notin> visited
                           then newUrlsFound @ [absoluteUrl]
                           else newUrlsFound)))"

text \<open>
  The \<^verbatim>\<open>try\<close> block of \<^verbatim>\<open>processUrl\<close>: \<open>Inl\<close> is an error thrown to the
  \<^verbatim>\<open>catch\<close>, \<open>Inr\<close> the list the block reaches the end with (or \<open>[]\<close>, returned
  early when the parser gives \<^verbatim>\<open>null\<close>). The calls that can throw are the fetch, the
  read of the body, the HTML parser, \<^verbatim>\<open>ensureDir\<close> and \<^verbatim>\<open>writeTextFile\<close>; the queries
  on the parsed document are taken not to throw. So every throw comes before the first link
  is pushed, and \<^verbatim>\<open>newUrlsFound\<close>, which the call returns after the \<^verbatim>\<open>catch\<close>, is
  empty whenever the \<^verbatim>\<open>catch\<close> runs.
\<close>

definition processUrl_try ::
  "platform \<Rightarrow> world \<Rightarrow> globals \<Rightarrow> string \<Rightarrow> (error + string list) \<times> globals"
where
  "processUrl_try P w g url =
     (case fst (fetchWithRetry (net w) url 3 1000) of
        Inl e \<Rightarrow> (Inl e, g)
      | Inr response \<Rightarrow>
          (case text_result response of
             Inl e \<Rightarrow> (Inl e, g)
           | Inr html \<Rightarrow>
               (case parseFromString w html of
                  Inl e \<Rightarrow> (Inl e, g)
                | Inr None \<Rightarrow> (Inr [], g)
                | Inr (Some d) \<Rightarrow>
                    (let text = textContent d
                     in if text \<noteq> [] then
                          (let textFilename = urlToFilename P (now w) url ''.txt''
                           in case ensureDir w (OUTPUT_DIR w) of
                                Some e \<Rightarrow> (Inl e, g)
                              | None \<Rightarrow>
                                  (case writeTextFile w (OUTPUT_DIR w) textFilename text of
                                     Some e \<Rightarrow> (Inl e, g)
                                   | None \<Rightarrow>
                                       (let g' = g\<lparr>scrapedData := scrapedData g @
                                                  [\<lparr>entry_url = url, entry_content = text\<rparr>]\<rparr>
                                        in (Inr (collect_links P (visitedUrls g') url (links d) []),
                                            g'))))
                        else (Inr (collect_links P (visitedUrls g) url (links d) []), g)))))"

text \<open>
  \<^verbatim>\<open>processUrl\<close> in two parts, as the scheduler runs it. \<open>processUrl_enter\<close> is the
  part up to the first await: the test, and the mark in \<^verbatim>\<open>visitedUrls\<close>. It gives
  \<open>False\<close> when the call returns \<^verbatim>\<open>[]\<close> at once, and it throws when
  \<^verbatim>\<open>new URL(START_URL)\<close> does. \<open>processUrl_resume\<close> is the rest: the \<^verbatim>\<open>try\<close>
  block, the \<^verbatim>\<open>catch\<close> and the final \<^verbatim>\<open>return newUrlsFound\<close>; it reads and
  writes the globals only after its last await, so it runs on the globals of that moment.
\<close>

definition processUrl_enter :: "platform \<Rightarrow> globals \<Rightarrow> string \<Rightarrow> error + bool \<times> globals" where
  "processUrl_enter P g url =
     (if url \<in> visitedUrls g then Inr (False, g)
      else
        (case URL_new P START_URL of
           None \<Rightarrow> Inl (TypeError START_URL)
         | Some b \<Rightarrow>
             if \<not> isValidUrlToCrawl P url b then Inr (False, g)
             else Inr (True, g\<lparr>visitedUrls := insert url (visitedUrls g)\<rparr>)))"

definition processUrl_resume ::
  "platform \<Rightarrow> world \<Rightarrow> globals \<Rightarrow> string \<Rightarrow> string list \<times> globals"
where
  "processUrl_resume P w g url =
     (case processUrl_try P w g url of
        (Inl e, g') \<Rightarrow> ([], g')
      | (Inr newUrlsFound, g') \<Rightarrow> (newUrlsFound, g'))"

text \<open>A whole call of \<^verbatim>\<open>processUrl\<close> with no other task running in between.\<close>

definition processUrl ::
  "platform \<Rightarrow> world \<Rightarrow> globals \<Rightarrow> string \<Rightarrow> error + string list \<times> globals"
where
  "processUrl P w g url =
     (case processUrl_enter P g url of
        Inl e \<Rightarrow> Inl e
      | Inr (False, g') \<Rightarrow> Inr ([], g')
      | Inr (True, g') \<Rightarrow> Inr (processUrl_resume P w g' url))"

section \<open>The crawl driver\<close>

text \<open>
  The loop of \<^verbatim>\<open>main\<close> with the pool of \<^verbatim>\<open>pooledMap\<close>. The script is
  single-threaded: between two awaits a piece of code runs alone. The state of the run is
  the globals, the set \<^verbatim>\<open>activeUrls\<close> (a JavaScript \<^verbatim>\<open>Set\<close> keeps insertion
  order, so it is a list without duplicates), the items of \<^verbatim>\<open>currentBatch\<close> the pool
  has not called yet, the calls of \<^verbatim>\<open>processUrl\<close> that are past their entry and
  waiting, and the results the \<^verbatim>\<open>for await\<close> loop has not read yet. \<open>layer\<close>
  counts the batches begun, \<open>failure\<close> is the error that ended the run, and
  \<open>trace\<close> records what happened, in order: \<open>Batch n urls\<close>, the loop took
  \<open>urls\<close> as the batch of layer \<open>n\<close>; \<open>Call n url\<close>, the pool called
  \<^verbatim>\<open>processUrl(url)\<close> in layer \<open>n\<close>; \<open>Processing url\<close>, the call passed the test at
  its entry (the line \<^verbatim>\<open>[Process] Processing\<close> of the log); \<open>Completed url\<close>, the
  call, having passed the test, ran to its end; \<open>Return n url urls\<close>, the call on
  \<open>url\<close> made in layer \<open>n\<close> returned the list \<open>urls\<close> (at once when it did not
  pass the test, and then \<open>[]\<close>); \<open>Read n urls\<close>, the \<^verbatim>\<open>for await\<close> loop read the
  result \<open>urls\<close> during layer \<open>n\<close>; \<open>Add n url\<close>, the loop added \<open>url\<close> to
  \<^verbatim>\<open>activeUrls\<close> during layer \<open>n\<close>.

  Of \<^verbatim>\<open>pooledMap\<close> the model keeps what its documentation promises: the items are
  taken in order, at most \<open>MAX_CONCURRENCY\<close> calls are under way, every result is
  delivered, and the iteration ends when all are. The order in which ready results are
  read is left to the schedule.
\<close>

datatype event =
    Batch nat "string list"
  | Call nat string
  | Processing string
  | Completed string
  | Return nat string "string list"
  | Read nat "string list"
  | Add nat string

record main_state =
  shared :: globals
  activeUrls :: "string list"
  currentBatch :: "string list"
  inFlight :: "string list"
  resolved :: "string list list"
  layer :: nat
  trace :: "event list"
  failure :: "error option"

text \<open>
  The body of the \<^verbatim>\<open>for await\<close> loop on one result:
  \<^verbatim>\<open>if (!visitedUrls.has(newUrl)) activeUrls.add(newUrl)\<close> for each of its URLs.
\<close>

fun add_new :: "string set \<Rightarrow> string list \<Rightarrow> string list \<Rightarrow> string list" where
  "add_new visited [] active = active"
| "add_new visited (newUrl # rest) active =
     add_new visited rest
       (if newUrl \<notin> visited \<and> newUrl \<notin> set active then active @ [newUrl] else active)"

text \<open>
  The atomic pieces of the run, chosen by the scheduler:
  \<^item> \<open>NextBatch\<close>: the head of the \<^verbatim>\<open>while\<close> loop, reached when the
    \<^verbatim>\<open>for await\<close> loop of the batch before has ended (every item called, every call
    returned, every result read); it enters the loop when \<^verbatim>\<open>activeUrls.size > 0\<close>;
  \<^item> \<open>CallNext\<close>: the pool calls \<^verbatim>\<open>processUrl\<close> on the next item, when fewer than
    \<open>MAX_CONCURRENCY\<close> calls are waiting; the call runs to its first await, or returns
    \<^verbatim>\<open>[]\<close> at once, or throws (which ends the run);
  \<^item> \<open>Complete url w\<close>: the waiting call on \<open>url\<close> runs from its last await to its
    return, having met the world \<open>w\<close>;
  \<^item> \<open>Consume k\<close>: the \<^verbatim>\<open>for await\<close> loop reads a result that is ready.
  A piece that cannot run in the state gives \<open>None\<close>.
\<close>

datatype action = NextBatch | CallNext | Complete string world | Consume nat

definition main_step :: "platform \<Rightarrow> main_state \<Rightarrow> action \<Rightarrow> main_state option" where
  "main_step P s a =
     (if failure s \<noteq> None then None
      else
        (case a of
           NextBatch \<Rightarrow>
             if currentBatch s = [] \<and> inFlight s = [] \<and> resolved s = [] \<and> activeUrls s \<noteq> []
             then Some (s\<lparr>currentBatch := activeUrls s, activeUrls := [],
                          layer := Suc (layer s),
                          trace := trace s @ [Batch (Suc (layer s)) (activeUrls s)]\<rparr>)
             else None
         | CallNext \<Rightarrow>
             (case currentBatch s of
                [] \<Rightarrow> None
              | url # rest \<Rightarrow>
                  if length (inFlight s) < MAX_CONCURRENCY then
                    (case processUrl_enter P (shared s) url of
                       Inl e \<Rightarrow>
                         Some (s\<lparr>currentBatch := rest,
                                  trace := trace s @ [Call (layer s) url],
                                  failure := Some e\<rparr>)
                     | Inr (started, g) \<Rightarrow>
                         if started then
                           Some (s\<lparr>shared := g, currentBatch := rest,
                                    inFlight := inFlight s @ [url],
                                    trace := trace s @ [Call (layer s) url, Processing url]\<rparr>)
                         else
                           Some (s\<lparr>shared := g, currentBatch := rest,
                                    resolved := resolved s @ [[]],
                                    trace := trace s @
                                      [Call (layer s) url, Return (layer s) url []]\<rparr>))
                  else None)
         | Complete url w \<Rightarrow>
             if url \<in> set (inFlight s) then
               (case processUrl_resume P w (shared s) url of
                  (newUrls, g) \<Rightarrow>
                    Some (s\<lparr>shared := g, inFlight := remove1 url (inFlight s),
                             resolved := resolved s @ [newUrls],
                             trace := trace s @
                               [Completed url, Return (layer s) url newUrls]\<rparr>))
             else None
         | Consume k \<Rightarrow>
             if k < length (resolved s) then
               (let active = add_new (visitedUrls (shared s)) (resolved s ! k) (activeUrls s)
                in Some (s\<lparr>activeUrls := active,
                            resolved := take k (resolved s) @ drop (Suc k) (resolved s),
                            trace := trace s @
                              Read (layer s) (resolved s ! k) #
                              map (Add (layer s)) (drop (length (activeUrls s)) active)\<rparr>))
             else None))"

text \<open>
  The state \<^verbatim>\<open>main\<close> begins its loop in, once \<^verbatim>\<open>ensureDir(OUTPUT_DIR)\<close> has
  succeeded: \<^verbatim>\<open>activeUrls\<close> is \<^verbatim>\<open>new Set([normalizeUrl(START_URL)])\<close>.
\<close>

definition init :: "platform \<Rightarrow> main_state" where
  "init P =
     \<lparr>shared = \<lparr>visitedUrls = {}, scrapedData = []\<rparr>,
      activeUrls = [normalizeUrl P START_URL], currentBatch = [], inFlight = [],
      resolved = [], layer = 0, trace = [], failure = None\<rparr>"

text \<open>A run under a schedule; \<open>None\<close> when the schedule asks for a piece that cannot run.\<close>

fun run :: "platform \<Rightarrow> main_state \<Rightarrow> action list \<Rightarrow> main_state option" where
  "run P s [] = Some s"
| "run P s (a # schedule) =
     (case main_step P s a of None \<Rightarrow> None | Some s' \<Rightarrow> run P s' schedule)"

text \<open>The loop of \<^verbatim>\<open>main\<close> has ended: the run is at the head of the loop with an empty frontier.\<close>

definition finished :: "main_state \<Rightarrow> bool" where
  "finished s =
     (currentBatch s = [] \<and> inFlight s = [] \<and> resolved s = [] \<and> activeUrls s = [])"

section \<open>An example platform\<close>

text \<open>
  What the URL parser gives on the strings the examples below use; it is a table of
  those strings only, and every other string counts as unparsable.
\<close>

definition http_url :: "string \<Rightarrow> string \<Rightarrow> string \<Rightarrow> string option \<Rightarrow> url" where
  "http_url sch h p f =
     \<lparr>scheme = sch, username = [], password = [], host = Some h, port = None,
      path = p, query = None, fragment = f\<rparr>"

definition start_obj :: url where
  "start_obj = http_url ''https'' ''sites.google.com'' ''/zen.ac.jp/zen-gakuseibinran/home'' None"

definition about_obj :: url where
  "about_obj = http_url ''https'' ''sites.google.com'' ''/zen.ac.jp/zen-gakuseibinran/about'' None"

definition url_table :: "(string \<times> url) list" where
  "url_table =
     [(START_URL, start_obj),
      (''https://sites.google.com/zen.ac.jp/zen-gakuseibinran/about'', about_obj),
      (''https://other.com/zen.ac.jp/zen-gakuseibinran/p'',
         http_url ''https'' ''other.com'' ''/zen.ac.jp/zen-gakuseibinran/p'' None),
      (''https://x/a#frag'', http_url ''https'' ''x'' ''/a'' (Some ''frag'')),
      (''https://x/a'', http_url ''https'' ''x'' ''/a'' None),
      (''https://x/a.b/'', http_url ''https'' ''x'' ''/a.b/'' None),
      (''https://x/'', http_url ''https'' ''x'' ''/'' None),
      (''https://x/'' @ replicate 150 CHR ''a'',
         http_url ''https'' ''x'' (''/'' @ replicate 150 CHR ''a'') None)]"

definition base_table :: "(string \<times> url) list" where
  "base_table =
     [(''/zen.ac.jp/zen-gakuseibinran/about'', about_obj)]"

definition example_platform :: platform where
  "example_platform =
     \<lparr>URL_new = map_of url_table,
      URL_new_base = (\<lambda>s b. if b = START_URL then map_of base_table s else None)\<rparr>"

text \<open>A world in which every request gives the same response.\<close>

definition page_world :: "response \<Rightarrow> document \<Rightarrow> error option \<Rightarrow> world" where
  "page_world r d wr =
     \<lparr>net = (\<lambda>k. Resolved r), parseFromString = (\<lambda>html. Inr (Some d)),
      OUTPUT_DIR = ''./text-20250412'', ensureDir = (\<lambda>dir. None),
      writeTextFile = (\<lambda>dir name text. wr), now = 0\<rparr>"

text \<open>
  A response with a body, a page with text and three anchors (one in scope, one whose
  \<^verbatim>\<open>href\<close> the URL constructor rejects, one without \<^verbatim>\<open>href\<close>), and the globals as a
  call on the start URL finds them after its entry.
\<close>

definition ok_response :: response where
  "ok_response = \<lparr>status = 200, text_result = Inr (units ''<html>'')\<rparr>"

definition links_page :: document where
  "links_page =
     \<lparr>mainContent = Some (0x3000 # units '' Handbook'' @ [0xA0, 0x0A]),
      body = Some (units ''Menu Handbook''),
      links = [Some ''/zen.ac.jp/zen-gakuseibinran/about'', Some ''https://[bad'', None]\<rparr>"

definition entered :: globals where
  "entered = \<lparr>visitedUrls = {START_URL}, scrapedData = []\<rparr>"

definition about_url :: string where
  "about_url = ''https://sites.google.com/zen.ac.jp/zen-gakuseibinran/about''"

text \<open>
  A run of two layers: the start page is processed and gives the link to the second page,
  which is processed in the next batch and has no links. \<open>example_final\<close> is the state
  the run ends in; its trace is the first layer, the opening of the second batch, and the
  second layer.
\<close>

definition about_page :: document where
  "about_page = \<lparr>mainContent = None, body = Some (units ''About''), links = []\<rparr>"

definition example_schedule :: "action list" where
  "example_schedule =
     [NextBatch, CallNext, Complete START_URL (page_world ok_response links_page None),
      Consume 0, NextBatch, CallNext,
      Complete about_url (page_world ok_response about_page None), Consume 0]"

definition first_layer :: "event list" where
  "first_layer =
     [Batch 1 [START_URL], Call 1 START_URL, Processing START_URL, Completed START_URL,
      Return 1 START_URL [about_url], Read 1 [about_url], Add 1 about_url]"

definition second_layer :: "event list" where
  "second_layer =
     [Call 2 about_url, Processing about_url, Completed about_url, Return 2 about_url [],
      Read 2 []]"

definition example_final :: main_state where
  "example_final =
     \<lparr>shared = \<lparr>visitedUrls = {about_url, START_URL},
        scrapedData = [\<lparr>entry_url = START_URL, entry_content = units ''Handbook''\<rparr>,
                       \<lparr>entry_url = about_url, entry_content = units ''About''\<rparr>]\<rparr>,
      activeUrls = [], currentBatch = [], inFlight = [], resolved = [], layer = 2,
      trace = first_layer @ Batch 2 [about_url] # second_layer,
      failure = None\<rparr>"

text \<open>
  Three states on the way: the call on the start URL is waiting; it has returned; its
  result has been read.
\<close>

definition example_waiting :: main_state where
  "example_waiting =
     \<lparr>shared = entered, activeUrls = [], currentBatch = [], inFlight = [START_URL],
      resolved = [], layer = 1, trace = take 3 first_layer, failure = None\<rparr>"

definition example_returned :: main_state where
  "example_returned =
     \<lparr>shared = \<lparr>visitedUrls = {START_URL},
        scrapedData = [\<lparr>entry_url = START_URL, entry_content = units ''Handbook''\<rparr>]\<rparr>,
      activeUrls = [], currentBatch = [], inFlight = [], resolved = [[about_url]], layer = 1,
      trace = take 5 first_layer, failure = None\<rparr>"

definition example_read :: main_state where
  "example_read =
     \<lparr>shared = \<lparr>visitedUrls = {START_URL},
        scrapedData = [\<lparr>entry_url = START_URL, entry_content = units ''Handbook''\<rparr>]\<rparr>,
      activeUrls = [about_url], currentBatch = [], inFlight = [], resolved = [], layer = 1,
      trace = first_layer, failure = None\<rparr>"

text \<open>
  Two networks: one that fails twice (a rejected request, then a 503) before it answers,
  and one that answers 500 to every request.
\<close>

definition flaky :: "nat \<Rightarrow> fetch_outcome" where
  "flaky k =
     (if k = 0 then Rejected (TypeError ''network'')
      else if k = 1 then Resolved \<lparr>status = 503, text_result = Inr []\<rparr>
      else Resolved \<lparr>status = 200, text_result = Inr (units ''<html>'')\<rparr>)"

definition down :: "nat \<Rightarrow> fetch_outcome" where
  "down k = Resolved \<lparr>status = 500, text_result = Inr []\<rparr>"

section \<open>Notions of the specification\<close>

text \<open>
  What a call of \<^verbatim>\<open>fetchWithRetry\<close> does when its attempts after the \<open>i\<close>-th fail up
  to the \<open>k\<close>-th: before every attempt the politeness sleep and then the request, and
  after the \<open>n\<close>-th failed attempt a sleep of \<open>delay * n\<close>.
\<close>

definition retry_effects :: "string \<Rightarrow> nat \<Rightarrow> nat \<Rightarrow> nat \<Rightarrow> effect list" where
  "retry_effects url delay i k =
     concat (map (\<lambda>n. [Sleep DELAY_MS, Fetch url, Sleep (delay * n)]) [Suc i..<Suc k]) @
     [Sleep DELAY_MS, Fetch url]"

section \<open>Invariants of the run\<close>

text \<open>
  Read off a trace: the URLs whose processing began (they passed the test at the entry of
  \<^verbatim>\<open>processUrl\<close>), and the URLs whose call completed (it fetched, extracted, saved and
  returned).
\<close>

definition processings :: "event list \<Rightarrow> string list" where
  "processings tr = concat (map (\<lambda>e. case e of Processing u \<Rightarrow> [u] | _ \<Rightarrow> []) tr)"

definition completions :: "event list \<Rightarrow> string list" where
  "completions tr = concat (map (\<lambda>e. case e of Completed u \<Rightarrow> [u] | _ \<Rightarrow> []) tr)"

text \<open>
  The visited set is the set of URLs whose processing began, none began twice, each of
  them is waiting or completed and not both, and every entry of \<^verbatim>\<open>scrapedData\<close> is of
  a completed call, one entry at most for a URL.
\<close>

definition once :: "main_state \<Rightarrow> bool" where
  "once s =
     (visitedUrls (shared s) = set (processings (trace s)) \<and>
      distinct (processings (trace s)) \<and>
      distinct (inFlight s @ completions (trace s)) \<and>
      set (inFlight s @ completions (trace s)) = set (processings (trace s)) \<and>
      distinct (map entry_url (scrapedData (shared s))) \<and>
      set (map entry_url (scrapedData (shared s))) \<subseteq> set (completions (trace s)))"

text \<open>A URL is in scope: the start URL parses, and the URL is valid with it as base.\<close>

definition in_scope :: "platform \<Rightarrow> string \<Rightarrow> bool" where
  "in_scope P u = (\<exists>b. URL_new P START_URL = Some b \<and> isValidUrlToCrawl P u b)"

text \<open>
  The layers of the events that carry one, the URLs the pool called in a layer, and the
  URLs added to \<^verbatim>\<open>activeUrls\<close> during a layer, all in the order of the trace.
\<close>

definition layers :: "event list \<Rightarrow> nat list" where
  "layers tr =
     concat (map (\<lambda>e. case e of Batch n us \<Rightarrow> [n] | Call n u \<Rightarrow> [n]
                        | Return n u r \<Rightarrow> [n] | Read n r \<Rightarrow> [n] | Add n u \<Rightarrow> [n]
                        | _ \<Rightarrow> []) tr)"

definition calls_in :: "nat \<Rightarrow> event list \<Rightarrow> string list" where
  "calls_in n tr =
     concat (map (\<lambda>e. case e of Call m u \<Rightarrow> if m = n then [u] else [] | _ \<Rightarrow> []) tr)"

definition adds_in :: "nat \<Rightarrow> event list \<Rightarrow> string list" where
  "adds_in n tr =
     concat (map (\<lambda>e. case e of Add m u \<Rightarrow> if m = n then [u] else [] | _ \<Rightarrow> []) tr)"

text \<open>
  What holds wherever a batch begins in a trace, \<open>xs\<close> being the trace before and
  \<open>ys\<close> the trace after: the batch before (there is one, unless this is the first) was
  called entirely, every call begun has completed, all that happened before belongs to
  earlier layers and all that happens after to this layer or later ones, and the batch is
  the start URL for the first layer, and otherwise the URLs added during the layer before.
\<close>

definition boundaries :: "platform \<Rightarrow> event list \<Rightarrow> bool" where
  "boundaries P tr =
     (\<forall>xs m us ys. tr = xs @ Batch (Suc m) us # ys \<longrightarrow>
        (0 < m \<longrightarrow> (\<exists>vs. Batch m vs \<in> set xs)) \<and>
        (\<forall>vs. Batch m vs \<in> set xs \<longrightarrow> calls_in m xs = vs) \<and>
        set (processings xs) = set (completions xs) \<and>
        (\<forall>k\<in>set (layers xs). k \<le> m) \<and>
        (\<forall>k\<in>set (layers ys). Suc m \<le> k) \<and>
        us = (if m = 0 then [normalizeUrl P START_URL] else adds_in m xs))"

text \<open>
  The frontier layer \<open>m\<close> is formed from: the start URL for the first layer, and for a
  later layer the URLs added during the layer before. Every URL still to call in the
  batch under way, and every URL called in a layer, comes from the frontier of its layer.
\<close>

definition frontier :: "platform \<Rightarrow> event list \<Rightarrow> nat \<Rightarrow> string list" where
  "frontier P tr m = (if m = 1 then [normalizeUrl P START_URL] else adds_in (m - 1) tr)"

definition sourced :: "platform \<Rightarrow> main_state \<Rightarrow> bool" where
  "sourced P s =
     (set (currentBatch s) \<subseteq> set (frontier P (trace s) (layer s)) \<and>
      (\<forall>m v. Call m v \<in> set (trace s) \<longrightarrow> 0 < m \<and> v \<in> set (frontier P (trace s) m)))"

text \<open>The invariant of the layers, on a state of the run.\<close>

definition layered :: "platform \<Rightarrow> main_state \<Rightarrow> bool" where
  "layered P s =
     ((\<forall>k\<in>set (layers (trace s)). k \<le> layer s) \<and>
      sorted (layers (trace s)) \<and>
      (layer s = 0 \<longrightarrow>
         trace s = [] \<and> activeUrls s = [normalizeUrl P START_URL] \<and> currentBatch s = [] \<and>
         inFlight s = [] \<and> resolved s = []) \<and>
      (0 < layer s \<longrightarrow>
         (\<exists>vs. Batch (layer s) vs \<in> set (trace s)) \<and>
         activeUrls s = adds_in (layer s) (trace s)) \<and>
      (\<forall>vs. Batch (layer s) vs \<in> set (trace s) \<longrightarrow>
         calls_in (layer s) (trace s) @ currentBatch s = vs) \<and>
      boundaries P (trace s))"

text \<open>
  The lists the calls of \<^verbatim>\<open>processUrl\<close> returned in a layer, the lists the
  \<^verbatim>\<open>for await\<close> loop read in a layer, and the links of a trace: the pairs of a URL and
  a URL that its call returned (a URL of the page that was in scope and not visited when
  the call read the page).
\<close>

definition returns_in :: "nat \<Rightarrow> event list \<Rightarrow> string list list" where
  "returns_in n tr =
     concat (map (\<lambda>e. case e of Return m u r \<Rightarrow> if m = n then [r] else [] | _ \<Rightarrow> []) tr)"

definition reads_in :: "nat \<Rightarrow> event list \<Rightarrow> string list list" where
  "reads_in n tr =
     concat (map (\<lambda>e. case e of Read m r \<Rightarrow> if m = n then [r] else [] | _ \<Rightarrow> []) tr)"

definition links_of :: "event list \<Rightarrow> (string \<times> string) list" where
  "links_of tr =
     concat (map (\<lambda>e. case e of Return n u r \<Rightarrow> map (Pair u) r | _ \<Rightarrow> []) tr)"

text \<open>
  The ends of the paths of \<open>j\<close> links from \<open>a\<close>, and the URLs that are \<open>j\<close>
  links away from the start URL by the links of a trace.
\<close>

primrec reach :: "(string \<times> string) set \<Rightarrow> string \<Rightarrow> nat \<Rightarrow> string set" where
  "reach R a 0 = {a}"
| "reach R a (Suc j) = R `` reach R a j"

definition at_steps :: "platform \<Rightarrow> event list \<Rightarrow> nat \<Rightarrow> string set" where
  "at_steps P tr j = reach (set (links_of tr)) (normalizeUrl P START_URL) j"

text \<open>The URLs whose processing began before the last batch of the trace began.\<close>

definition is_batch :: "event \<Rightarrow> bool" where
  "is_batch e = (case e of Batch n us \<Rightarrow> True | _ \<Rightarrow> False)"

definition earlier :: "event list \<Rightarrow> string list" where
  "earlier tr = processings (rev (dropWhile (\<lambda>e. \<not> is_batch e) (rev tr)))"

text \<open>A property of the trace before, the number of the layer before and the batch, wherever
  a batch begins in a trace.\<close>

definition at_batches :: "(event list \<Rightarrow> nat \<Rightarrow> string list \<Rightarrow> bool) \<Rightarrow> event list \<Rightarrow> bool" where
  "at_batches Q tr = (\<forall>xs m us ys. tr = xs @ Batch (Suc m) us # ys \<longrightarrow> Q xs m us)"

text \<open>
  The results are accounted for where the batch of layer \<open>m + 1\<close> begins: every list
  returned before was read before (in its own layer, as many times as it was returned),
  every URL of the batch is in a list that a call of layer \<open>m\<close> returned, and every
  URL that a call returned before has begun processing or is in the batch, and then its
  call was of layer \<open>m\<close>.
\<close>

definition harvested :: "event list \<Rightarrow> nat \<Rightarrow> string list \<Rightarrow> bool" where
  "harvested xs m us =
     ((\<forall>n. mset (returns_in n xs) = mset (reads_in n xs)) \<and>
      (0 < m \<longrightarrow> (\<forall>v\<in>set us. \<exists>u r. Return m u r \<in> set xs \<and> v \<in> set r)) \<and>
      (\<forall>n u r v. Return n u r \<in> set xs \<longrightarrow> v \<in> set r \<longrightarrow>
         v \<in> set (processings xs) \<or> (n = m \<and> v \<in> set us)))"

text \<open>
  The same on a state of the run: the lists returned in the layer under way are those
  read and those waiting to be read; what \<^verbatim>\<open>activeUrls\<close> holds comes from lists
  returned in this layer; a call returns in the layer it was made in; every URL returned
  is in scope; and every URL returned has begun processing, or is in \<^verbatim>\<open>activeUrls\<close>
  or in a list waiting to be read, or is still to call in the batch under way.
\<close>

definition accounted :: "platform \<Rightarrow> main_state \<Rightarrow> bool" where
  "accounted P s =
     ((\<forall>n. mset (returns_in n (trace s)) =
           mset (reads_in n (trace s)) + (if n = layer s then mset (resolved s) else {#})) \<and>
      (0 < layer s \<longrightarrow>
         (\<forall>v\<in>set (activeUrls s). \<exists>u r. Return (layer s) u r \<in> set (trace s) \<and> v \<in> set r)) \<and>
      (\<forall>r\<in>set (resolved s). \<exists>u. Return (layer s) u r \<in> set (trace s)) \<and>
      (\<forall>u\<in>set (inFlight s). Call (layer s) u \<in> set (trace s)) \<and>
      (\<forall>n u r. Return n u r \<in> set (trace s) \<longrightarrow> Call n u \<in> set (trace s)) \<and>
      (\<forall>n u r v. Return n u r \<in> set (trace s) \<longrightarrow> v \<in> set r \<longrightarrow> in_scope P v) \<and>
      (\<forall>n u r v. Return n u r \<in> set (trace s) \<longrightarrow> v \<in> set r \<longrightarrow>
         v \<in> set (processings (trace s)) \<or>
         (n = layer s \<and> (v \<in> set (activeUrls s) \<or> r \<in> set (resolved s))) \<or>
         (Suc n = layer s \<and> v \<in> set (currentBatch s))) \<and>
      at_batches harvested (trace s))"

text \<open>
  Link distance where the batch of layer \<open>m + 1\<close> begins: every URL of the batch is
  \<open>m\<close> links away from the start URL, and, when the start URL is in scope, every URL
  fewer than \<open>m\<close> links away has begun processing before.
\<close>

definition ranked :: "platform \<Rightarrow> event list \<Rightarrow> nat \<Rightarrow> string list \<Rightarrow> bool" where
  "ranked P xs m us =
     (set us \<subseteq> at_steps P xs m \<and>
      (in_scope P (normalizeUrl P START_URL) \<longrightarrow>
         (\<forall>j<m. at_steps P xs j \<subseteq> set (processings xs))))"

text \<open>
  The same on a state of the run, in layer \<open>n\<close>: \<^verbatim>\<open>activeUrls\<close> and the lists
  waiting to be read hold URLs \<open>n\<close> links away, the batch under way and the waiting
  calls are of URLs \<open>n - 1\<close> links away, no waiting call is of a URL whose processing
  began in an earlier layer, and, when the start URL is in scope, every URL fewer than
  \<open>n - 1\<close> links away began processing in an earlier layer and every URL \<open>n - 1\<close>
  links away has begun processing or is still to call.
\<close>

definition graded :: "platform \<Rightarrow> main_state \<Rightarrow> bool" where
  "graded P s =
     (set (activeUrls s) \<subseteq> at_steps P (trace s) (layer s) \<and>
      (\<forall>r\<in>set (resolved s). set r \<subseteq> at_steps P (trace s) (layer s)) \<and>
      (0 < layer s \<longrightarrow>
         set (currentBatch s) \<union> set (inFlight s) \<subseteq> at_steps P (trace s) (layer s - 1)) \<and>
      set (inFlight s) \<inter> set (earlier (trace s)) = {} \<and>
      (in_scope P (normalizeUrl P START_URL) \<longrightarrow>
         (\<forall>j. Suc j < layer s \<longrightarrow> at_steps P (trace s) j \<subseteq> set (earlier (trace s))) \<and>
         (0 < layer s \<longrightarrow>
            at_steps P (trace s) (layer s - 1) \<subseteq>
              set (processings (trace s)) \<union> set (currentBatch s))) \<and>
      at_batches (ranked P) (trace s))"


section \<open>Properties of the URL helpers\<close>

lemma fragment_clear_hash: "fragment (clear_hash u) = None"
  by (simp add: clear_hash_def Let_def)

lemma toString_clear_hash: "toString (clear_hash u) = href_no_fragment (clear_hash u)"
  by (simp add: toString_def fragment_clear_hash)

lemma clear_hash_http_url: "clear_hash (http_url sch h p f) = http_url sch h p None"
  by (simp add: clear_hash_def http_url_def opaque_path_def)

subsection \<open>The example platform\<close>

lemma example_URL_new: "URL_new example_platform = map_of url_table"
  by (simp add: example_platform_def)

lemma parse_bad: "URL_new example_platform ''not a url'' = None"
  unfolding example_URL_new by code_simp

lemma parse_other:
  "URL_new example_platform ''https://other.com/zen.ac.jp/zen-gakuseibinran/p'' =
     Some (http_url ''https'' ''other.com'' ''/zen.ac.jp/zen-gakuseibinran/p'' None)"
  unfolding example_URL_new by code_simp

lemma parse_start: "URL_new example_platform START_URL = Some start_obj"
  unfolding example_URL_new by code_simp

lemma parse_long:
  "URL_new example_platform (''https://x/'' @ replicate 150 CHR ''a'') =
     Some (http_url ''https'' ''x'' (''/'' @ replicate 150 CHR ''a'') None)"
  unfolding example_URL_new by code_simp

lemma parse_dot:
  "URL_new example_platform ''https://x/a.b/'' = Some (http_url ''https'' ''x'' ''/a.b/'' None)"
  unfolding example_URL_new by code_simp

subsection \<open>normalizeUrl\<close>

text \<open>
  On a string that parses, the result is the serialisation of the URL after its hash was
  cleared, and it has no fragment; on a string that does not parse, the result is the
  string itself.
\<close>

lemma normalizeUrl_parsed:
  "URL_new P url = Some u \<Longrightarrow> normalizeUrl P url = href_no_fragment (clear_hash u)"
  by (simp add: normalizeUrl_def toString_clear_hash)

lemma normalizeUrl_unparsed: "URL_new P url = None \<Longrightarrow> normalizeUrl P url = url"
  by (simp add: normalizeUrl_def)

subsection \<open>isValidUrlToCrawl\<close>

text \<open>
  Claim C4. \<^verbatim>\<open>isValidUrlToCrawl\<close> holds of a string and a base exactly when the string
  parses to a URL whose scheme is http or https, whose host name is the base's and whose
  path starts with the allowed prefix. A string that does not parse is rejected, and so
  is every URL on another host, whatever its path.
\<close>

theorem isValidUrlToCrawl_iff:
  "(isValidUrlToCrawl P url b \<longleftrightarrow>
      (\<exists>u. URL_new P url = Some u \<and> (scheme u = ''http'' \<or> scheme u = ''https'') \<and>
           hostname u = hostname b \<and> prefix ALLOWED_PATH_PREFIX (pathname u))) \<and>
   (URL_new P url = None \<longrightarrow> \<not> isValidUrlToCrawl P url b) \<and>
   (\<forall>u. URL_new P url = Some u \<longrightarrow> hostname u \<noteq> hostname b \<longrightarrow>
      \<not> isValidUrlToCrawl P url b)"
  by (auto simp: isValidUrlToCrawl_def protocol_def split: option.splits)

text \<open>
  On the example platform: \<^verbatim>\<open>https://other.com/zen.ac.jp/zen-gakuseibinran/p\<close> is
  rejected though its path has the prefix, an unparsable string is rejected, and the start
  URL is accepted.
\<close>

theorem isValidUrlToCrawl_iff_witness:
  "\<not> isValidUrlToCrawl example_platform ''https://other.com/zen.ac.jp/zen-gakuseibinran/p''
       start_obj \<and>
   prefix ALLOWED_PATH_PREFIX
     (pathname (http_url ''https'' ''other.com'' ''/zen.ac.jp/zen-gakuseibinran/p'' None)) \<and>
   \<not> isValidUrlToCrawl example_platform ''not a url'' start_obj \<and>
   isValidUrlToCrawl example_platform START_URL start_obj"
proof -
  let ?E = example_platform
  let ?o = "http_url ''https'' ''other.com'' ''/zen.ac.jp/zen-gakuseibinran/p'' None"
  have h: "hostname ?o \<noteq> hostname start_obj"
    by (simp add: hostname_def http_url_def start_obj_def)
  have a: "\<not> isValidUrlToCrawl ?E ''https://other.com/zen.ac.jp/zen-gakuseibinran/p'' start_obj"
    using isValidUrlToCrawl_iff [of ?E "''https://other.com/zen.ac.jp/zen-gakuseibinran/p''" start_obj]
      parse_other h by blast
  have b: "prefix ALLOWED_PATH_PREFIX (pathname ?o)"
    by (simp add: ALLOWED_PATH_PREFIX_def pathname_def http_url_def)
  have c: "\<not> isValidUrlToCrawl ?E ''not a url'' start_obj"
    using isValidUrlToCrawl_iff [of ?E "''not a url''" start_obj] parse_bad by blast
  have "scheme start_obj = ''https''" "prefix ALLOWED_PATH_PREFIX (pathname start_obj)"
    by (simp_all add: ALLOWED_PATH_PREFIX_def pathname_def http_url_def start_obj_def)
  then have d: "isValidUrlToCrawl ?E START_URL start_obj"
    using isValidUrlToCrawl_iff [of ?E START_URL start_obj] parse_start by blast
  show ?thesis by (intro conjI) (rule a, rule b, rule c, rule d)
qed

subsection \<open>urlToFilename\<close>

lemma not_filename_char_slash: "\<not> filename_char CHR ''/''"
  by (simp add: filename_char_def)

lemma filename_char_underscore: "filename_char CHR ''_''"
  by (simp add: filename_char_def)

lemma replace_fused:
  "replace_unsafe (slashes_to_underscores s) =
     map (\<lambda>c. if filename_char c then c else CHR ''_'') s"
  by (simp add: replace_unsafe_def slashes_to_underscores_def not_filename_char_slash
      filename_char_underscore)

lemma index_chars: "c \<in> set ''index'' \<Longrightarrow> filename_char c"
  by (auto simp: filename_char_def)

lemma replace_unsafe_chars: "c \<in> set (replace_unsafe s) \<Longrightarrow> filename_char c"
  by (auto simp: replace_unsafe_def filename_char_underscore)

lemma raw_filename_chars:
  assumes "c \<in> set (raw_filename u)"
  shows "filename_char c"
proof -
  define r where
    "r = replace_unsafe (slashes_to_underscores (strip_slashes
           (pathname u @ search u @ hash u)))"
  show ?thesis
  proof (cases "r = []")
    case True
    then have "raw_filename u = ''index''" by (simp add: raw_filename_def r_def)
    with assms show ?thesis by (simp only: index_chars)
  next
    case False
    then have "raw_filename u = r" by (simp add: raw_filename_def r_def)
    with assms show ?thesis by (simp only: r_def replace_unsafe_chars)
  qed
qed

lemma raw_long:
  "raw_filename (http_url ''https'' ''x'' (CHR ''/'' # replicate 150 CHR ''a'') None) =
     replicate 150 CHR ''a''"
  by (simp add: raw_filename_def http_url_def pathname_def search_def hash_def strip_slashes_def
      replace_fused filename_char_def)

text \<open>
  Claim C5, as stated, fails: on a string that does not parse, the file name holds the
  clock reading of the call, and two calls at different times give different names.
\<close>

theorem urlToFilename_clock_counterexample:
  "urlToFilename example_platform 1000 ''not a url'' ''.txt'' \<noteq>
   urlToFilename example_platform 2000 ''not a url'' ''.txt''"
  by (simp add: urlToFilename_def parse_bad string_of_nat.simps)

text \<open>
  Claim C5, amended. On a string that parses, the file name does not depend on the time
  of the call: any two calls give the same name. On a string that does not parse, the
  name is \<^verbatim>\<open>invalid_url_\<close>, the clock reading in decimal, and the extension.
\<close>

theorem urlToFilename_deterministic:
  "(URL_new P url \<noteq> None \<longrightarrow>
      urlToFilename P t url ext = urlToFilename P t' url ext) \<and>
   (URL_new P url = None \<longrightarrow>
      urlToFilename P t url ext = ''invalid_url_'' @ string_of_nat t @ ext)"
  by (auto simp: urlToFilename_def)

theorem urlToFilename_deterministic_witness:
  "urlToFilename example_platform 1 START_URL ''.txt'' =
     urlToFilename example_platform 2 START_URL ''.txt'' \<and>
   urlToFilename example_platform 12 ''not a url'' ''.txt'' = ''invalid_url_12.txt''"
proof -
  have a: "urlToFilename example_platform 1 START_URL ''.txt'' =
     urlToFilename example_platform 2 START_URL ''.txt''"
    using urlToFilename_deterministic [of example_platform START_URL 1 "''.txt''" 2] parse_start
    by simp
  have "urlToFilename example_platform 12 ''not a url'' ''.txt'' =
      ''invalid_url_'' @ string_of_nat 12 @ ''.txt''"
    using urlToFilename_deterministic [of example_platform "''not a url''" 12 "''.txt''"] parse_bad
    by blast
  then have b: "urlToFilename example_platform 12 ''not a url'' ''.txt'' = ''invalid_url_12.txt''"
    by (simp add: string_of_nat.simps)
  show ?thesis by (intro conjI) (rule a, rule b)
qed

text \<open>
  Claim C7, as stated, fails: not every slash and not every non-alphanumeric character is
  replaced. For the path \<^verbatim>\<open>/a.b/\<close> the name is \<^verbatim>\<open>a.b\<close>: the slashes at both ends
  are deleted, and the dot is kept.
\<close>

theorem urlToFilename_counterexample:
  "urlToFilename example_platform 0 ''https://x/a.b/'' [] = ''a.b''"
  by (simp add: urlToFilename_def parse_dot raw_filename_def http_url_def pathname_def
      search_def hash_def strip_slashes_def slashes_to_underscores_def replace_unsafe_def
      filename_char_def)

text \<open>
  Claim C7, amended. For a URL that parses, the name is built from path, query and
  fragment: one slash at the start and one at the end are deleted, and every character
  other than an ASCII letter, a digit, \<open>_\<close>, \<open>-\<close> and \<open>.\<close> (so every slash left) becomes
  \<open>_\<close>; an empty result becomes \<^verbatim>\<open>index\<close>. The file name is the last 100 characters
  of that name (all of it when it is shorter) followed by the extension: a name of 150
  characters keeps exactly its last 100.
\<close>

theorem urlToFilename_parsed:
  "URL_new P url = Some u \<longrightarrow>
     raw_filename u =
       (let r = map (\<lambda>c. if filename_char c then c else CHR ''_'')
                  (strip_slashes (pathname u @ search u @ hash u))
        in if r = [] then ''index'' else r) \<and>
     urlToFilename P t url ext =
       drop (length (raw_filename u) - 100) (raw_filename u) @ ext \<and>
     (length (raw_filename u) = 150 \<longrightarrow>
        urlToFilename P t url ext = drop 50 (raw_filename u) @ ext) \<and>
     (\<forall>c \<in> set (raw_filename u). filename_char c) \<and>
     raw_filename u \<noteq> [] \<and>
     length (urlToFilename P t url ext) \<le> 100 + length ext"
proof (intro impI conjI ballI)
  assume p: "URL_new P url = Some u"
  show "raw_filename u =
       (let r = map (\<lambda>c. if filename_char c then c else CHR ''_'')
                  (strip_slashes (pathname u @ search u @ hash u))
        in if r = [] then ''index'' else r)"
    by (simp add: raw_filename_def replace_fused)
  show e: "urlToFilename P t url ext =
       drop (length (raw_filename u) - 100) (raw_filename u) @ ext"
    using p by (simp add: urlToFilename_def Let_def)
  show "urlToFilename P t url ext = drop 50 (raw_filename u) @ ext"
    if "length (raw_filename u) = 150"
    using that e by simp
  show "filename_char c" if "c \<in> set (raw_filename u)" for c
    using that by (rule raw_filename_chars)
  show "raw_filename u \<noteq> []"
    by (simp add: raw_filename_def Let_def)
  show "length (urlToFilename P t url ext) \<le> 100 + length ext"
    unfolding e by simp
qed

theorem urlToFilename_parsed_witness:
  "urlToFilename example_platform 0 (''https://x/'' @ replicate 150 CHR ''a'') ''.txt'' =
     replicate 100 CHR ''a'' @ ''.txt''"
proof -
  let ?u = "http_url ''https'' ''x'' (''/'' @ replicate 150 CHR ''a'') None"
  have "length (raw_filename ?u) = 150" by (simp add: raw_long)
  with urlToFilename_parsed [of example_platform "''https://x/'' @ replicate 150 CHR ''a''" ?u 0 "''.txt''"]
    parse_long
  have "urlToFilename example_platform 0 (''https://x/'' @ replicate 150 CHR ''a'') ''.txt'' =
      drop 50 (raw_filename ?u) @ ''.txt''"
    by blast
  then show ?thesis by (simp add: raw_long)
qed


section \<open>Properties of fetchWithRetry\<close>

lemma fetch_loop_unfold:
  "i < retries \<Longrightarrow>
   fetch_loop reqs url retries delay i =
     (case attempt (reqs i) url of
        Inr r \<Rightarrow> (Inr r, [Sleep DELAY_MS, Fetch url])
      | Inl e \<Rightarrow>
          if Suc i = retries then (Inl e, [Sleep DELAY_MS, Fetch url])
          else
            (let (res, effs) = fetch_loop reqs url retries delay (Suc i)
             in (res, [Sleep DELAY_MS, Fetch url, Sleep (delay * (i + 1))] @ effs)))"
  by (subst fetch_loop.simps) simp

lemma retry_effects_step:
  "i < k \<Longrightarrow>
   retry_effects url delay i k =
     [Sleep DELAY_MS, Fetch url, Sleep (delay * (i + 1))] @ retry_effects url delay (Suc i) k"
  by (simp add: retry_effects_def upt_conv_Cons del: upt_Suc)

lemma retry_effects_last: "retry_effects url delay k k = [Sleep DELAY_MS, Fetch url]"
  by (simp add: retry_effects_def)

lemma fetch_loop_success:
  assumes "i \<le> k" and "k < retries"
    and "\<forall>j. i \<le> j \<and> j < k \<longrightarrow> isl (attempt (reqs j) url)"
    and "attempt (reqs k) url = Inr r"
  shows "fetch_loop reqs url retries delay i = (Inr r, retry_effects url delay i k)"
  using assms
proof (induction rule: inc_induct)
  case base
  then show ?case by (simp add: fetch_loop_unfold retry_effects_last)
next
  case (step n)
  from step.prems step.hyps have f: "isl (attempt (reqs n) url)" by simp
  then obtain e where e: "attempt (reqs n) url = Inl e" by (cases "attempt (reqs n) url") auto
  from step have ih: "fetch_loop reqs url retries delay (Suc n) = (Inr r, retry_effects url delay (Suc n) k)"
    by simp
  from step.hyps step.prems have "n < retries" "Suc n \<noteq> retries" by simp_all
  then show ?case
    by (simp add: fetch_loop_unfold [of n] e ih retry_effects_step [OF step.hyps(2)])
qed

lemma fetch_loop_failure:
  assumes "i \<le> k" and "Suc k = retries"
    and "\<forall>j. i \<le> j \<and> j < k \<longrightarrow> isl (attempt (reqs j) url)"
    and "attempt (reqs k) url = Inl e"
  shows "fetch_loop reqs url retries delay i = (Inl e, retry_effects url delay i k)"
  using assms
proof (induction rule: inc_induct)
  case base
  then show ?case by (simp add: fetch_loop_unfold retry_effects_last)
next
  case (step n)
  from step.prems step.hyps have f: "isl (attempt (reqs n) url)" by simp
  then obtain e' where e: "attempt (reqs n) url = Inl e'" by (cases "attempt (reqs n) url") auto
  from step have ih: "fetch_loop reqs url retries delay (Suc n) = (Inl e, retry_effects url delay (Suc n) k)"
    by simp
  from step.hyps step.prems have "n < retries" "Suc n \<noteq> retries" by auto
  then show ?case
    by (simp add: fetch_loop_unfold [of n] e ih retry_effects_step [OF step.hyps(2)])
qed

lemma isl_attempt:
  "isl (attempt out url) \<longleftrightarrow>
     (case out of Rejected e \<Rightarrow> True | Resolved r \<Rightarrow> \<not> (200 \<le> status r \<and> status r \<le> 299))"
  by (simp add: attempt_def ok_def split: fetch_outcome.splits)

lemma fetchWithRetry_fails_iff:
  "isl (fst (fetchWithRetry reqs url retries delay)) \<longleftrightarrow>
     (\<forall>j<retries. isl (attempt (reqs j) url))"
proof (cases "\<forall>j<retries. isl (attempt (reqs j) url)")
  case all: True
  show ?thesis
  proof (cases retries)
    case 0
    then show ?thesis by (simp add: fetchWithRetry_def fetch_loop.simps [of _ _ 0])
  next
    case (Suc m)
    with all obtain e where e: "attempt (reqs m) url = Inl e"
      by (cases "attempt (reqs m) url") auto
    from all Suc have "\<forall>j. 0 \<le> j \<and> j < m \<longrightarrow> isl (attempt (reqs j) url)" by simp
    with e Suc have "fetch_loop reqs url retries delay 0 = (Inl e, retry_effects url delay 0 m)"
      by (intro fetch_loop_failure) simp_all
    with all show ?thesis by (simp add: fetchWithRetry_def)
  qed
next
  case False
  then have ex: "\<exists>k. k < retries \<and> \<not> isl (attempt (reqs k) url)" by blast
  define k where "k = (LEAST k. k < retries \<and> \<not> isl (attempt (reqs k) url))"
  from LeastI_ex [OF ex] have k: "k < retries" "\<not> isl (attempt (reqs k) url)"
    unfolding k_def by simp_all
  have before: "\<forall>j. 0 \<le> j \<and> j < k \<longrightarrow> isl (attempt (reqs j) url)"
  proof (intro allI impI)
    fix j assume j: "0 \<le> j \<and> j < k"
    with k have "j < retries" by simp
    with j show "isl (attempt (reqs j) url)"
      unfolding k_def using not_less_Least by blast
  qed
  from k obtain r where "attempt (reqs k) url = Inr r"
    by (cases "attempt (reqs k) url") auto
  with k before have "fetch_loop reqs url retries delay 0 = (Inr r, retry_effects url delay 0 k)"
    by (intro fetch_loop_success) simp_all
  with False show ?thesis by (simp add: fetchWithRetry_def)
qed

text \<open>
  Claim C3. An attempt fails when the request is rejected or the status of the response
  is outside 200..299. With a budget of \<open>retries\<close> attempts (3 in \<^verbatim>\<open>processUrl\<close>),
  \<^verbatim>\<open>fetchWithRetry\<close> returns the first response whose attempt succeeds among the first
  \<open>retries\<close>, and throws exactly when all of them fail; the error is the one of the last
  attempt. Its effects are, before every attempt, the fixed sleep of \<open>DELAY_MS\<close> and the
  request, and after the \<open>n\<close>-th failed attempt that is not the last, a sleep of
  \<open>delay * n\<close>.
\<close>

theorem fetchWithRetry_retries:
  "(\<forall>k r. k < retries \<longrightarrow> (\<forall>j<k. isl (attempt (reqs j) url)) \<longrightarrow>
       attempt (reqs k) url = Inr r \<longrightarrow>
       fetchWithRetry reqs url retries delay = (Inr r, retry_effects url delay 0 k)) \<and>
   (\<forall>e. 0 < retries \<longrightarrow> (\<forall>j<retries - 1. isl (attempt (reqs j) url)) \<longrightarrow>
       attempt (reqs (retries - 1)) url = Inl e \<longrightarrow>
       fetchWithRetry reqs url retries delay = (Inl e, retry_effects url delay 0 (retries - 1))) \<and>
   (isl (fst (fetchWithRetry reqs url retries delay)) \<longleftrightarrow>
       (\<forall>j<retries. isl (attempt (reqs j) url))) \<and>
   (isl (attempt out url) \<longleftrightarrow>
       (case out of Rejected e \<Rightarrow> True
        | Resolved r \<Rightarrow> \<not> (200 \<le> status r \<and> status r \<le> 299)))"
proof (intro conjI allI impI)
  fix k r
  assume "k < retries" "\<forall>j<k. isl (attempt (reqs j) url)" "attempt (reqs k) url = Inr r"
  then show "fetchWithRetry reqs url retries delay = (Inr r, retry_effects url delay 0 k)"
    unfolding fetchWithRetry_def by (intro fetch_loop_success) simp_all
next
  fix e
  assume "0 < retries" "\<forall>j<retries - 1. isl (attempt (reqs j) url)"
    "attempt (reqs (retries - 1)) url = Inl e"
  then show "fetchWithRetry reqs url retries delay = (Inl e, retry_effects url delay 0 (retries - 1))"
    unfolding fetchWithRetry_def by (intro fetch_loop_failure) simp_all
next
  show "isl (fst (fetchWithRetry reqs url retries delay)) \<longleftrightarrow>
       (\<forall>j<retries. isl (attempt (reqs j) url))"
    by (rule fetchWithRetry_fails_iff)
next
  show "isl (attempt out url) \<longleftrightarrow>
       (case out of Rejected e \<Rightarrow> True
        | Resolved r \<Rightarrow> \<not> (200 \<le> status r \<and> status r \<le> 299))"
    by (rule isl_attempt)
qed

text \<open>
  With three attempts and a base of 1000: two failures and then a success give the
  response, after sleeps of 500, 1000, 500, 2000 and 500; three failures give the HTTP
  error of the third attempt, with no sleep after it.
\<close>

theorem fetchWithRetry_retries_witness:
  "fetchWithRetry flaky START_URL 3 1000 =
     (Inr \<lparr>status = 200, text_result = Inr (units ''<html>'')\<rparr>,
      [Sleep 500, Fetch START_URL, Sleep 1000, Sleep 500, Fetch START_URL, Sleep 2000,
       Sleep 500, Fetch START_URL]) \<and>
   fetchWithRetry down START_URL 3 1000 =
     (Inl (HttpError 500 START_URL),
      [Sleep 500, Fetch START_URL, Sleep 1000, Sleep 500, Fetch START_URL, Sleep 2000,
       Sleep 500, Fetch START_URL])"
proof -
  have eff: "retry_effects START_URL 1000 0 2 =
      [Sleep 500, Fetch START_URL, Sleep 1000, Sleep 500, Fetch START_URL, Sleep 2000,
       Sleep 500, Fetch START_URL]"
    by (simp add: retry_effects_def DELAY_MS_def upt_rec)
  have "\<forall>j<2. isl (attempt (flaky j) START_URL)"
    by (auto simp: attempt_def flaky_def ok_def)
  moreover have "attempt (flaky 2) START_URL = Inr \<lparr>status = 200, text_result = Inr (units ''<html>'')\<rparr>"
    by (simp add: attempt_def flaky_def ok_def)
  ultimately have a: "fetchWithRetry flaky START_URL 3 1000 =
     (Inr \<lparr>status = 200, text_result = Inr (units ''<html>'')\<rparr>, retry_effects START_URL 1000 0 2)"
    using fetchWithRetry_retries [of 3 flaky START_URL 1000] by simp
  have "\<forall>j<3 - 1. isl (attempt (down j) START_URL)"
    by (auto simp: attempt_def down_def ok_def)
  moreover have "attempt (down (3 - 1)) START_URL = Inl (HttpError 500 START_URL)"
    by (simp add: attempt_def down_def ok_def)
  ultimately have b: "fetchWithRetry down START_URL 3 1000 =
     (Inl (HttpError 500 START_URL), retry_effects START_URL 1000 0 (3 - 1))"
    using fetchWithRetry_retries [of 3 down START_URL 1000] by simp
  from a b eff show ?thesis by simp
qed


section \<open>Properties of processUrl\<close>

lemma fetchWithRetry_first:
  "attempt (reqs 0) url = Inr r \<Longrightarrow> 0 < retries \<Longrightarrow>
   fetchWithRetry reqs url retries delay = (Inr r, [Sleep DELAY_MS, Fetch url])"
  by (simp add: fetchWithRetry_def fetch_loop_unfold)

lemma page_world_fields:
  "net (page_world r d wr) = (\<lambda>k. Resolved r)"
  "parseFromString (page_world r d wr) = (\<lambda>html. Inr (Some d))"
  "ensureDir (page_world r d wr) = (\<lambda>dir. None)"
  "writeTextFile (page_world r d wr) = (\<lambda>dir name text. wr)"
  by (simp_all add: page_world_def)

lemma fetch_page_world:
  "fst (fetchWithRetry (\<lambda>k. Resolved ok_response) url 3 1000) = Inr ok_response"
  by (simp add: fetchWithRetry_first attempt_def ok_def ok_response_def)

lemma text_ok_response: "text_result ok_response = Inr (units ''<html>'')"
  by (simp add: ok_response_def)

lemma resolve_about:
  "URL_new_base example_platform ''/zen.ac.jp/zen-gakuseibinran/about'' START_URL = Some about_obj"
  by (simp add: example_platform_def base_table_def)

lemma resolve_bad: "URL_new_base example_platform ''https://[bad'' START_URL = None"
  by (simp add: example_platform_def base_table_def)

lemma parse_about: "URL_new example_platform about_url = Some about_obj"
  unfolding example_URL_new about_url_def by code_simp

lemma toString_about: "toString about_obj = about_url"
  by (simp add: toString_def href_no_fragment_def about_obj_def http_url_def about_url_def)

lemma normalize_about: "normalizeUrl example_platform about_url = about_url"
  by (simp add: normalizeUrl_parsed [OF parse_about] about_obj_def clear_hash_http_url)
     (simp add: href_no_fragment_def http_url_def about_url_def)

lemma valid_about: "isValidUrlToCrawl example_platform about_url start_obj"
  by (simp add: isValidUrlToCrawl_def parse_about)
     (simp add: about_obj_def start_obj_def http_url_def protocol_def hostname_def pathname_def
        ALLOWED_PATH_PREFIX_def)

lemma normalize_start: "normalizeUrl example_platform START_URL = START_URL"
  by (simp add: normalizeUrl_parsed [OF parse_start] start_obj_def clear_hash_http_url)
     (simp add: href_no_fragment_def http_url_def START_URL_def)

lemma scope_start: "in_scope example_platform START_URL"
  by (simp add: in_scope_def parse_start isValidUrlToCrawl_def)
     (simp add: start_obj_def http_url_def protocol_def hostname_def pathname_def
        ALLOWED_PATH_PREFIX_def)

lemma about_not_start: "about_url \<noteq> START_URL"
  by (simp add: about_url_def START_URL_def)

lemma collect_links_page:
  "collect_links example_platform {START_URL} START_URL (links links_page) [] = [about_url]"
  by (simp add: links_page_def resolve_about resolve_bad toString_about normalize_about
      parse_start valid_about about_not_start)

lemma textContent_links_page: "textContent links_page = units ''Handbook''"
  by code_simp

lemma handbook_not_empty: "units ''Handbook'' \<noteq> []"
  by (simp add: units_def)

lemma processUrl_try_throws:
  "processUrl_try P w g url = (Inl e, g') \<Longrightarrow> g' = g"
  by (auto simp: processUrl_try_def Let_def split: sum.splits option.splits if_splits)

text \<open>
  Claim C8, as stated, fails for the enumeration of links: an error raised there (the URL
  constructor rejecting an \<^verbatim>\<open>href\<close>) is caught, but the call still returns the other
  links it found.
\<close>

theorem processUrl_links_counterexample:
  "URL_new_base example_platform ''https://[bad'' START_URL = None \<and>
   fst (processUrl_resume example_platform (page_world ok_response links_page None) entered
          START_URL) = [about_url]"
  by (simp add: resolve_bad processUrl_resume_def processUrl_try_def page_world_fields
      fetch_page_world text_ok_response textContent_links_page handbook_not_empty
      collect_links_page entered_def)

text \<open>
  Claim C8, amended. Every error thrown while fetching (the retries exhausted), reading
  the body, parsing the HTML or saving the text is caught inside \<^verbatim>\<open>processUrl\<close>: the
  call returns no discovered URL and leaves the globals as they were; so it does when the
  parser gives no document. An \<^verbatim>\<open>href\<close> that does not resolve is caught on its own: that
  link alone is skipped. And a call of \<^verbatim>\<open>processUrl\<close> returns, whatever the world does,
  as long as the start URL itself parses.
\<close>

theorem processUrl_catches:
  "(fst (fetchWithRetry (net w) url 3 1000) = Inl e \<longrightarrow>
      processUrl_resume P w g url = ([], g)) \<and>
   ((\<forall>j<3. isl (attempt (net w j) url)) \<longrightarrow> processUrl_resume P w g url = ([], g)) \<and>
   (fst (fetchWithRetry (net w) url 3 1000) = Inr r \<longrightarrow> text_result r = Inl e \<longrightarrow>
      processUrl_resume P w g url = ([], g)) \<and>
   (fst (fetchWithRetry (net w) url 3 1000) = Inr r \<longrightarrow> text_result r = Inr html \<longrightarrow>
      (parseFromString w html = Inl e \<or> parseFromString w html = Inr None) \<longrightarrow>
      processUrl_resume P w g url = ([], g)) \<and>
   (fst (fetchWithRetry (net w) url 3 1000) = Inr r \<longrightarrow> text_result r = Inr html \<longrightarrow>
      parseFromString w html = Inr (Some d) \<longrightarrow> textContent d \<noteq> [] \<longrightarrow>
      (ensureDir w (OUTPUT_DIR w) = Some e \<or>
       ensureDir w (OUTPUT_DIR w) = None \<and>
       writeTextFile w (OUTPUT_DIR w) (urlToFilename P (now w) url ''.txt'') (textContent d) =
         Some e) \<longrightarrow>
      processUrl_resume P w g url = ([], g)) \<and>
   (\<forall>e' g'. processUrl_try P w g url = (Inl e', g') \<longrightarrow>
      processUrl_resume P w g url = ([], g)) \<and>
   (URL_new_base P h url = None \<longrightarrow>
      collect_links P v url (Some h # rest) acc = collect_links P v url rest acc) \<and>
   (URL_new P START_URL \<noteq> None \<longrightarrow> (\<exists>res. processUrl P w g url = Inr res))"
proof (intro conjI impI allI)
  assume "fst (fetchWithRetry (net w) url 3 1000) = Inl e"
  then show "processUrl_resume P w g url = ([], g)"
    by (simp add: processUrl_resume_def processUrl_try_def)
next
  assume "\<forall>j<3. isl (attempt (net w j) url)"
  then have "isl (fst (fetchWithRetry (net w) url 3 1000))"
    by (simp only: fetchWithRetry_fails_iff)
  then obtain e' where "fst (fetchWithRetry (net w) url 3 1000) = Inl e'"
    by (cases "fst (fetchWithRetry (net w) url 3 1000)") auto
  then show "processUrl_resume P w g url = ([], g)"
    by (simp add: processUrl_resume_def processUrl_try_def)
next
  assume "fst (fetchWithRetry (net w) url 3 1000) = Inr r" "text_result r = Inl e"
  then show "processUrl_resume P w g url = ([], g)"
    by (simp add: processUrl_resume_def processUrl_try_def)
next
  assume "fst (fetchWithRetry (net w) url 3 1000) = Inr r" "text_result r = Inr html"
    "parseFromString w html = Inl e \<or> parseFromString w html = Inr None"
  then show "processUrl_resume P w g url = ([], g)"
    by (auto simp: processUrl_resume_def processUrl_try_def)
next
  assume "fst (fetchWithRetry (net w) url 3 1000) = Inr r" "text_result r = Inr html"
    "parseFromString w html = Inr (Some d)" "textContent d \<noteq> []"
    "ensureDir w (OUTPUT_DIR w) = Some e \<or>
       ensureDir w (OUTPUT_DIR w) = None \<and>
       writeTextFile w (OUTPUT_DIR w) (urlToFilename P (now w) url ''.txt'') (textContent d) =
         Some e"
  then show "processUrl_resume P w g url = ([], g)"
    by (auto simp: processUrl_resume_def processUrl_try_def Let_def)
next
  fix e' g' assume t: "processUrl_try P w g url = (Inl e', g')"
  then have "g' = g" by (rule processUrl_try_throws)
  with t show "processUrl_resume P w g url = ([], g)"
    by (simp add: processUrl_resume_def)
next
  assume "URL_new_base P h url = None"
  then show "collect_links P v url (Some h # rest) acc = collect_links P v url rest acc"
    by simp
next
  assume "URL_new P START_URL \<noteq> None"
  then show "\<exists>res. processUrl P w g url = Inr res"
    by (auto simp: processUrl_def processUrl_enter_def split: option.splits)
qed

theorem processUrl_catches_witness:
  "processUrl_resume example_platform (page_world \<lparr>status = 500, text_result = Inr []\<rparr> links_page None)
     entered START_URL = ([], entered) \<and>
   processUrl_resume example_platform
     ((page_world ok_response links_page None)\<lparr>parseFromString := \<lambda>html. Inr None\<rparr>)
     entered START_URL = ([], entered) \<and>
   collect_links example_platform {START_URL} START_URL
     [Some ''https://[bad'', Some ''/zen.ac.jp/zen-gakuseibinran/about''] [] = [about_url] \<and>
   (\<exists>res. processUrl example_platform (page_world ok_response links_page None)
      \<lparr>visitedUrls = {}, scrapedData = []\<rparr> START_URL = Inr res)"
proof -
  let ?E = example_platform
  let ?w1 = "page_world \<lparr>status = 500, text_result = Inr []\<rparr> links_page None"
  let ?w2 = "(page_world ok_response links_page None)\<lparr>parseFromString := \<lambda>html. Inr None\<rparr>"
  have "\<forall>j<3. isl (attempt (net ?w1 j) START_URL)"
    by (simp add: page_world_fields attempt_def ok_def)
  with processUrl_catches [of ?w1 START_URL _ ?E entered]
  have a: "processUrl_resume ?E ?w1 entered START_URL = ([], entered)" by blast
  have "fst (fetchWithRetry (net ?w2) START_URL 3 1000) = Inr ok_response"
    "text_result ok_response = Inr (units ''<html>'')" "parseFromString ?w2 (units ''<html>'') = Inr None"
    by (simp_all add: page_world_def fetch_page_world text_ok_response)
  with processUrl_catches [of ?w2 START_URL _ ?E entered ok_response "units ''<html>''"]
  have b: "processUrl_resume ?E ?w2 entered START_URL = ([], entered)" by blast
  have "collect_links ?E {START_URL} START_URL
       [Some ''https://[bad'', Some ''/zen.ac.jp/zen-gakuseibinran/about''] [] =
     collect_links ?E {START_URL} START_URL [Some ''/zen.ac.jp/zen-gakuseibinran/about''] []"
    using processUrl_catches [of _ START_URL _ ?E _ _ _ _ "''https://[bad''"] resolve_bad
    by blast
  then have c: "collect_links ?E {START_URL} START_URL
       [Some ''https://[bad'', Some ''/zen.ac.jp/zen-gakuseibinran/about''] [] = [about_url]"
    by (simp add: resolve_about toString_about normalize_about parse_start valid_about
        about_not_start)
  have "URL_new ?E START_URL \<noteq> None" by (simp add: parse_start)
  with processUrl_catches [of _ START_URL _ ?E]
  have d: "\<exists>res. processUrl ?E (page_world ok_response links_page None)
      \<lparr>visitedUrls = {}, scrapedData = []\<rparr> START_URL = Inr res" by blast
  show ?thesis by (intro conjI) (rule a, rule b, rule c, rule d)
qed

text \<open>
  Claim C9. When the page was fetched and parsed, has text, and the write of its text file
  fails, the call returns no discovered URL and appends no entry to \<^verbatim>\<open>scrapedData\<close>;
  in the run, the call completes with the result \<^verbatim>\<open>[]\<close> and the run goes on (no
  failure is recorded). When the write succeeds, the entry of the page is appended.
\<close>

theorem processUrl_write_failure:
  "fst (fetchWithRetry (net w) url 3 1000) = Inr r \<longrightarrow> text_result r = Inr html \<longrightarrow>
   parseFromString w html = Inr (Some d) \<longrightarrow> textContent d \<noteq> [] \<longrightarrow>
   ensureDir w (OUTPUT_DIR w) = None \<longrightarrow>
   (writeTextFile w (OUTPUT_DIR w) (urlToFilename P (now w) url ''.txt'') (textContent d) = Some e
      \<longrightarrow>
      processUrl_resume P w g url = ([], g) \<and>
      (failure s = None \<longrightarrow> url \<in> set (inFlight s) \<longrightarrow>
         main_step P s (Complete url w) =
           Some (s\<lparr>inFlight := remove1 url (inFlight s), resolved := resolved s @ [[]],
                    trace := trace s @ [Completed url, Return (layer s) url []]\<rparr>))) \<and>
   (writeTextFile w (OUTPUT_DIR w) (urlToFilename P (now w) url ''.txt'') (textContent d) = None
      \<longrightarrow>
      scrapedData (snd (processUrl_resume P w g url)) =
        scrapedData g @ [\<lparr>entry_url = url, entry_content = textContent d\<rparr>])"
proof (intro conjI impI)
  assume pre: "fst (fetchWithRetry (net w) url 3 1000) = Inr r" "text_result r = Inr html"
    "parseFromString w html = Inr (Some d)" "textContent d \<noteq> []"
    "ensureDir w (OUTPUT_DIR w) = None"
  {
    assume wr: "writeTextFile w (OUTPUT_DIR w) (urlToFilename P (now w) url ''.txt'')
      (textContent d) = Some e"
    with pre show r: "processUrl_resume P w g url = ([], g)" for g
      by (simp add: processUrl_resume_def processUrl_try_def Let_def)
    assume "failure s = None" "url \<in> set (inFlight s)"
    then show "main_step P s (Complete url w) =
           Some (s\<lparr>inFlight := remove1 url (inFlight s), resolved := resolved s @ [[]],
                    trace := trace s @ [Completed url, Return (layer s) url []]\<rparr>)"
      by (simp add: main_step_def r)
  }
  assume "writeTextFile w (OUTPUT_DIR w) (urlToFilename P (now w) url ''.txt'')
      (textContent d) = None"
  with pre show "scrapedData (snd (processUrl_resume P w g url)) =
        scrapedData g @ [\<lparr>entry_url = url, entry_content = textContent d\<rparr>]"
    by (simp add: processUrl_resume_def processUrl_try_def Let_def)
qed

theorem processUrl_write_failure_witness:
  "processUrl_resume example_platform
     (page_world ok_response links_page (Some (IOError ''disk full''))) entered START_URL =
     ([], entered) \<and>
   scrapedData (snd (processUrl_resume example_platform
     (page_world ok_response links_page None) entered START_URL)) =
     [\<lparr>entry_url = START_URL, entry_content = units ''Handbook''\<rparr>]"
proof -
  let ?E = example_platform
  let ?w = "\<lambda>wr. page_world ok_response links_page wr"
  have pre: "fst (fetchWithRetry (net (?w wr)) START_URL 3 1000) = Inr ok_response"
    "text_result ok_response = Inr (units ''<html>'')"
    "parseFromString (?w wr) (units ''<html>'') = Inr (Some links_page)"
    "textContent links_page \<noteq> []"
    "ensureDir (?w wr) (OUTPUT_DIR (?w wr)) = None" for wr
    by (simp_all add: page_world_fields fetch_page_world text_ok_response textContent_links_page
        handbook_not_empty)
  have wr: "writeTextFile (?w wr) (OUTPUT_DIR (?w wr))
      (urlToFilename ?E (now (?w wr)) START_URL ''.txt'') (textContent links_page) = wr" for wr
    by (simp add: page_world_fields)
  from processUrl_write_failure [of "?w (Some (IOError ''disk full''))" START_URL ok_response
      "units ''<html>''" links_page ?E "IOError ''disk full''" entered]
    pre wr
  have a: "processUrl_resume ?E (?w (Some (IOError ''disk full''))) entered START_URL =
     ([], entered)" by blast
  from processUrl_write_failure [of "?w None" START_URL ok_response
      "units ''<html>''" links_page ?E _ entered]
    pre wr
  have "scrapedData (snd (processUrl_resume ?E (?w None) entered START_URL)) =
     scrapedData entered @ [\<lparr>entry_url = START_URL, entry_content = textContent links_page\<rparr>]"
    by blast
  then have b: "scrapedData (snd (processUrl_resume ?E (?w None) entered START_URL)) =
     [\<lparr>entry_url = START_URL, entry_content = units ''Handbook''\<rparr>]"
    by (simp add: entered_def textContent_links_page)
  show ?thesis by (intro conjI) (rule a, rule b)
qed


section \<open>Properties of the run\<close>

lemma processings_append [simp]: "processings (xs @ ys) = processings xs @ processings ys"
  by (simp add: processings_def)

lemma completions_append [simp]: "completions (xs @ ys) = completions xs @ completions ys"
  by (simp add: completions_def)

lemma processings_simps [simp]:
  "processings [] = []"
  "processings (Processing u # tr) = u # processings tr"
  "processings (Batch n us # tr) = processings tr"
  "processings (Call n u # tr) = processings tr"
  "processings (Completed u # tr) = processings tr"
  "processings (Add n u # tr) = processings tr"
  "processings (Return n u r # tr) = processings tr"
  "processings (Read n r # tr) = processings tr"
  by (simp_all add: processings_def)

lemma completions_simps [simp]:
  "completions [] = []"
  "completions (Completed u # tr) = u # completions tr"
  "completions (Batch n us # tr) = completions tr"
  "completions (Call n u # tr) = completions tr"
  "completions (Processing u # tr) = completions tr"
  "completions (Add n u # tr) = completions tr"
  "completions (Return n u r # tr) = completions tr"
  "completions (Read n r # tr) = completions tr"
  by (simp_all add: completions_def)

lemma processings_Add [simp]: "processings (map (Add n) us) = []"
  by (induction us) simp_all

lemma completions_Add [simp]: "completions (map (Add n) us) = []"
  by (induction us) simp_all

lemma processUrl_resume_globals:
  assumes "processUrl_resume P w g url = (r, g')"
  shows "visitedUrls g' = visitedUrls g \<and>
     (scrapedData g' = scrapedData g \<or>
      (\<exists>t. scrapedData g' = scrapedData g @ [\<lparr>entry_url = url, entry_content = t\<rparr>]))"
  using assms
  by (auto simp: processUrl_resume_def processUrl_try_def Let_def
      split: sum.splits option.splits if_splits prod.splits)

lemma processUrl_enter_cases:
  assumes "processUrl_enter P g url = Inr (started, g')"
  shows "(\<not> started \<and> g' = g \<and> (url \<in> visitedUrls g \<or> \<not> in_scope P url)) \<or>
     (started \<and> url \<notin> visitedUrls g \<and> in_scope P url \<and>
      g' = g\<lparr>visitedUrls := insert url (visitedUrls g)\<rparr>)"
  using assms
  by (auto simp: processUrl_enter_def in_scope_def split: if_splits option.splits)

lemma main_stepE:
  assumes "main_step P s a = Some s'"
  obtains
    (next_batch) "a = NextBatch" "failure s = None" "currentBatch s = []" "inFlight s = []"
      "resolved s = []" "activeUrls s \<noteq> []"
      "s' = s\<lparr>currentBatch := activeUrls s, activeUrls := [], layer := Suc (layer s),
               trace := trace s @ [Batch (Suc (layer s)) (activeUrls s)]\<rparr>"
  | (throw) url rest e where "a = CallNext" "failure s = None" "currentBatch s = url # rest"
      "length (inFlight s) < MAX_CONCURRENCY"
      "s' = s\<lparr>currentBatch := rest, trace := trace s @ [Call (layer s) url],
               failure := Some e\<rparr>"
      "URL_new P START_URL = None"
  | (skip) url rest where "a = CallNext" "failure s = None" "currentBatch s = url # rest"
      "length (inFlight s) < MAX_CONCURRENCY"
      "s' = s\<lparr>currentBatch := rest, resolved := resolved s @ [[]],
               trace := trace s @ [Call (layer s) url, Return (layer s) url []]\<rparr>"
      "url \<in> visitedUrls (shared s) \<or> \<not> in_scope P url"
  | (start) url rest where "a = CallNext" "failure s = None" "currentBatch s = url # rest"
      "length (inFlight s) < MAX_CONCURRENCY"
      "url \<notin> visitedUrls (shared s)" "in_scope P url"
      "s' = s\<lparr>shared := (shared s)\<lparr>visitedUrls := insert url (visitedUrls (shared s))\<rparr>,
               currentBatch := rest, inFlight := inFlight s @ [url],
               trace := trace s @ [Call (layer s) url, Processing url]\<rparr>"
  | (complete) url w newUrls g where "a = Complete url w" "failure s = None"
      "url \<in> set (inFlight s)" "processUrl_resume P w (shared s) url = (newUrls, g)"
      "s' = s\<lparr>shared := g, inFlight := remove1 url (inFlight s),
               resolved := resolved s @ [newUrls],
               trace := trace s @ [Completed url, Return (layer s) url newUrls]\<rparr>"
  | (consume) k where "a = Consume k" "failure s = None" "k < length (resolved s)"
      "s' = s\<lparr>activeUrls := add_new (visitedUrls (shared s)) (resolved s ! k) (activeUrls s),
               resolved := take k (resolved s) @ drop (Suc k) (resolved s),
               trace := trace s @ Read (layer s) (resolved s ! k) # map (Add (layer s))
                 (drop (length (activeUrls s))
                    (add_new (visitedUrls (shared s)) (resolved s ! k) (activeUrls s)))\<rparr>"
proof -
  from assms have f: "failure s = None" by (auto simp: main_step_def split: if_splits)
  show thesis
  proof (cases a)
    case NextBatch
    with assms f show ?thesis
      by (intro next_batch) (auto simp: main_step_def split: if_splits)
  next
    case CallNext
    with assms f obtain url rest where cb: "currentBatch s = url # rest"
      and len: "length (inFlight s) < MAX_CONCURRENCY"
      by (auto simp: main_step_def split: if_splits list.splits)
    show ?thesis
    proof (cases "processUrl_enter P (shared s) url")
      case (Inl e)
      then have "URL_new P START_URL = None"
        by (auto simp: processUrl_enter_def split: if_splits option.splits)
      with assms f CallNext cb len Inl show ?thesis
        by (intro throw [of url rest e]) (auto simp: main_step_def)
    next
      case (Inr r)
      obtain started g where r: "r = (started, g)" by (cases r)
      from processUrl_enter_cases [OF Inr [unfolded r]]
      consider (no) "\<not> started" "g = shared s"
          "url \<in> visitedUrls (shared s) \<or> \<not> in_scope P url"
        | (yes) "started" "url \<notin> visitedUrls (shared s)" "in_scope P url"
          "g = (shared s)\<lparr>visitedUrls := insert url (visitedUrls (shared s))\<rparr>"
        by blast
      then show ?thesis
      proof cases
        case no
        with assms f CallNext cb len Inr r show ?thesis
          by (intro skip [of url rest]) (auto simp: main_step_def)
      next
        case yes
        with assms f CallNext cb len Inr r show ?thesis
          by (intro start [of url rest]) (auto simp: main_step_def)
      qed
    qed
  next
    case (Complete url w)
    obtain newUrls g where r: "processUrl_resume P w (shared s) url = (newUrls, g)"
      by (cases "processUrl_resume P w (shared s) url")
    with assms f Complete show ?thesis
      by (intro complete [of url w newUrls g]) (auto simp: main_step_def split: if_splits)
  next
    case (Consume k)
    with assms f show ?thesis
      by (intro consume [of k]) (auto simp: main_step_def Let_def split: if_splits)
  qed
qed

lemma run_invariant:
  assumes "run P s0 schedule = Some s" and "I s0"
    and "\<And>s a s'. I s \<Longrightarrow> main_step P s a = Some s' \<Longrightarrow> I s'"
  shows "I s"
  using assms(1,2)
proof (induction schedule arbitrary: s0)
  case Nil
  then show ?case by simp
next
  case (Cons a schedule)
  then obtain s1 where s1: "main_step P s0 a = Some s1" "run P s1 schedule = Some s"
    by (auto split: option.splits)
  from assms(3) [OF Cons.prems(2) s1(1)] have "I s1" .
  with Cons.IH s1(2) show ?case by blast
qed

lemma once_init: "once (init P)"
  by (simp add: once_def init_def)

lemma once_step:
  assumes "once s" and "main_step P s a = Some s'"
  shows "once s'"
  using assms(2)
proof (cases rule: main_stepE)
  case next_batch
  with assms(1) show ?thesis by (auto simp: once_def)
next
  case (throw url rest e)
  with assms(1) show ?thesis by (auto simp: once_def)
next
  case (skip url rest)
  with assms(1) show ?thesis by (auto simp: once_def)
next
  case (start url rest)
  from assms(1) start(5) have "url \<notin> set (processings (trace s))" by (simp add: once_def)
  with assms(1) have "url \<notin> set (inFlight s)" "url \<notin> set (completions (trace s))"
    by (auto simp: once_def)
  with assms(1) start(5,7) show ?thesis by (auto simp: once_def)
next
  case (complete url w newUrls g)
  note g = processUrl_resume_globals [OF complete(4)]
  from assms(1) complete(3) have nc: "url \<notin> set (completions (trace s))"
    by (auto simp: once_def)
  with assms(1) have nr: "url \<notin> set (map entry_url (scrapedData (shared s)))"
    by (auto simp: once_def)
  from assms(1) have d: "distinct (inFlight s)" by (simp add: once_def)
  from assms(1) complete(3) nc d
  have a: "distinct (remove1 url (inFlight s) @ completions (trace s) @ [url])"
    by (auto simp: once_def)
  from complete(3) d
  have b: "set (remove1 url (inFlight s) @ completions (trace s) @ [url]) =
      set (inFlight s @ completions (trace s))"
    by auto
  from assms(1) have r: "distinct (map entry_url (scrapedData (shared s)))"
    "set (map entry_url (scrapedData (shared s))) \<subseteq> set (completions (trace s))"
    by (simp_all add: once_def)
  from g have "set (map entry_url (scrapedData g)) \<subseteq>
      insert url (set (map entry_url (scrapedData (shared s))))"
    by auto
  with r(2) have "set (map entry_url (scrapedData g)) \<subseteq> insert url (set (completions (trace s)))"
    by blast
  then have c2: "set (map entry_url (scrapedData g)) \<subseteq> set (completions (trace s) @ [url])"
    by (simp del: set_map)
  from g nr r(1) have c1: "distinct (map entry_url (scrapedData g))"
    by auto
  note c = c1 c2
  from assms(1) g a b c complete(5) show ?thesis
    by (auto simp: once_def)
next
  case (consume k)
  with assms(1) show ?thesis by (auto simp: once_def)
qed

lemma scope_step:
  assumes "\<forall>u\<in>visitedUrls (shared s). in_scope P u" and "main_step P s a = Some s'"
  shows "\<forall>u\<in>visitedUrls (shared s'). in_scope P u"
  using assms(2)
proof (cases rule: main_stepE)
  case (complete url w newUrls g)
  with assms(1) processUrl_resume_globals [OF complete(4)] show ?thesis by simp
qed (use assms(1) in simp_all)

lemma layers_append [simp]: "layers (xs @ ys) = layers xs @ layers ys"
  by (simp add: layers_def)

lemma calls_in_append [simp]: "calls_in n (xs @ ys) = calls_in n xs @ calls_in n ys"
  by (simp add: calls_in_def)

lemma adds_in_append [simp]: "adds_in n (xs @ ys) = adds_in n xs @ adds_in n ys"
  by (simp add: adds_in_def)

lemma layers_simps [simp]:
  "layers [] = []"
  "layers (Batch n us # tr) = n # layers tr"
  "layers (Call n u # tr) = n # layers tr"
  "layers (Add n u # tr) = n # layers tr"
  "layers (Processing u # tr) = layers tr"
  "layers (Completed u # tr) = layers tr"
  "layers (Return n u r # tr) = n # layers tr"
  "layers (Read n r # tr) = n # layers tr"
  by (simp_all add: layers_def)

lemma calls_in_simps [simp]:
  "calls_in n [] = []"
  "calls_in n (Call m u # tr) = (if m = n then u # calls_in n tr else calls_in n tr)"
  "calls_in n (Batch m us # tr) = calls_in n tr"
  "calls_in n (Add m u # tr) = calls_in n tr"
  "calls_in n (Processing u # tr) = calls_in n tr"
  "calls_in n (Completed u # tr) = calls_in n tr"
  "calls_in n (Return m u r # tr) = calls_in n tr"
  "calls_in n (Read m r # tr) = calls_in n tr"
  by (simp_all add: calls_in_def)

lemma adds_in_simps [simp]:
  "adds_in n [] = []"
  "adds_in n (Add m u # tr) = (if m = n then u # adds_in n tr else adds_in n tr)"
  "adds_in n (Batch m us # tr) = adds_in n tr"
  "adds_in n (Call m u # tr) = adds_in n tr"
  "adds_in n (Processing u # tr) = adds_in n tr"
  "adds_in n (Completed u # tr) = adds_in n tr"
  "adds_in n (Return m u r # tr) = adds_in n tr"
  "adds_in n (Read m r # tr) = adds_in n tr"
  by (simp_all add: adds_in_def)

lemma layers_Add [simp]: "layers (map (Add n) us) = replicate (length us) n"
  by (induction us) simp_all

lemma calls_in_Add [simp]: "calls_in m (map (Add n) us) = []"
  by (induction us) simp_all

lemma adds_in_Add [simp]: "adds_in n (map (Add n) us) = us"
  by (induction us) simp_all

lemma Batch_layers: "Batch n us \<in> set tr \<Longrightarrow> n \<in> set (layers tr)"
  by (induction tr) (auto simp: layers_def)

lemma absent_layer:
  assumes "m \<notin> set (layers tr)"
  shows "calls_in m tr = []" and "adds_in m tr = []" and "Batch m us \<notin> set tr"
proof -
  from assms show "calls_in m tr = []"
    by (induction tr) (auto simp: layers_def calls_in_def split: event.splits)
  from assms show "adds_in m tr = []"
    by (induction tr) (auto simp: layers_def adds_in_def split: event.splits)
  from assms show "Batch m us \<notin> set tr"
    using Batch_layers by blast
qed

lemma add_new_extends: "take (length active) (add_new visited r active) = active"
proof (induction r arbitrary: active)
  case Nil
  then show ?case by simp
next
  case (Cons u r)
  have "take (length active) (add_new visited r (active @ [u])) =
      take (length active) (take (length (active @ [u])) (add_new visited r (active @ [u])))"
    by (simp add: min_def)
  also have "\<dots> = active" by (simp only: Cons.IH) simp
  finally show ?case using Cons.IH by simp
qed

lemma add_new_drop:
  "active @ drop (length active) (add_new visited r active) = add_new visited r active"
  by (metis add_new_extends append_take_drop_id)

lemma split_snoc:
  assumes "tr @ [e] = xs @ e' # ys"
  shows "(xs = tr \<and> e' = e \<and> ys = []) \<or> (\<exists>ys'. tr = xs @ e' # ys' \<and> ys = ys' @ [e])"
  using assms by (cases ys rule: rev_cases) auto

lemma split_append:
  assumes "tr @ evs = xs @ Batch k us # ys" and "Batch k us \<notin> set evs"
  shows "\<exists>ys'. tr = xs @ Batch k us # ys' \<and> ys = ys' @ evs"
proof -
  from assms(1) obtain zs where
    "tr = xs @ zs \<and> zs @ evs = Batch k us # ys \<or> tr @ zs = xs \<and> evs = zs @ Batch k us # ys"
    by (auto simp: append_eq_append_conv2)
  with assms(2) have z: "tr = xs @ zs" "zs @ evs = Batch k us # ys" by auto
  with assms(2) obtain ys' where "zs = Batch k us # ys'" by (cases zs) auto
  with z show ?thesis by auto
qed

lemma boundaries_extend:
  assumes "boundaries P tr" and "\<And>k us. Batch k us \<notin> set evs"
    and "\<And>k j. k \<in> set (layers evs) \<Longrightarrow> j \<in> set (layers tr) \<Longrightarrow> j \<le> k"
  shows "boundaries P (tr @ evs)"
  unfolding boundaries_def
proof (intro allI impI)
  fix xs m us ys
  assume "tr @ evs = xs @ Batch (Suc m) us # ys"
  with assms(2) obtain ys' where tr: "tr = xs @ Batch (Suc m) us # ys'" and ys: "ys = ys' @ evs"
    using split_append by blast
  from assms(1) tr have old:
    "(0 < m \<longrightarrow> (\<exists>vs. Batch m vs \<in> set xs)) \<and>
     (\<forall>vs. Batch m vs \<in> set xs \<longrightarrow> calls_in m xs = vs) \<and>
     set (processings xs) = set (completions xs) \<and>
     (\<forall>k\<in>set (layers xs). k \<le> m) \<and>
     (\<forall>k\<in>set (layers ys'). Suc m \<le> k) \<and>
     us = (if m = 0 then [normalizeUrl P START_URL] else adds_in m xs)"
    unfolding boundaries_def by blast
  from tr have "Suc m \<in> set (layers tr)" by simp
  with assms(3) have "\<forall>k\<in>set (layers evs). Suc m \<le> k" by blast
  with old ys show
    "(0 < m \<longrightarrow> (\<exists>vs. Batch m vs \<in> set xs)) \<and>
     (\<forall>vs. Batch m vs \<in> set xs \<longrightarrow> calls_in m xs = vs) \<and>
     set (processings xs) = set (completions xs) \<and>
     (\<forall>k\<in>set (layers xs). k \<le> m) \<and>
     (\<forall>k\<in>set (layers ys). Suc m \<le> k) \<and>
     us = (if m = 0 then [normalizeUrl P START_URL] else adds_in m xs)"
    by auto
qed

lemma boundaries_batch:
  assumes "boundaries P tr" and "\<forall>k\<in>set (layers tr). k \<le> n"
    and "0 < n \<longrightarrow> (\<exists>vs. Batch n vs \<in> set tr)"
    and "\<forall>vs. Batch n vs \<in> set tr \<longrightarrow> calls_in n tr = vs"
    and "set (processings tr) = set (completions tr)"
    and "b = (if n = 0 then [normalizeUrl P START_URL] else adds_in n tr)"
  shows "boundaries P (tr @ [Batch (Suc n) b])"
  unfolding boundaries_def
proof (intro allI impI)
  fix xs m us ys
  assume "tr @ [Batch (Suc n) b] = xs @ Batch (Suc m) us # ys"
  then consider (new) "xs = tr" "m = n" "us = b" "ys = []"
    | (old) ys' where "tr = xs @ Batch (Suc m) us # ys'" "ys = ys' @ [Batch (Suc n) b]"
    using split_snoc [of tr "Batch (Suc n) b" xs "Batch (Suc m) us" ys] by auto
  then show
    "(0 < m \<longrightarrow> (\<exists>vs. Batch m vs \<in> set xs)) \<and>
     (\<forall>vs. Batch m vs \<in> set xs \<longrightarrow> calls_in m xs = vs) \<and>
     set (processings xs) = set (completions xs) \<and>
     (\<forall>k\<in>set (layers xs). k \<le> m) \<and>
     (\<forall>k\<in>set (layers ys). Suc m \<le> k) \<and>
     us = (if m = 0 then [normalizeUrl P START_URL] else adds_in m xs)"
  proof cases
    case new
    with assms(2-6) show ?thesis by simp
  next
    case old
    from assms(1) old(1) have o:
      "(0 < m \<longrightarrow> (\<exists>vs. Batch m vs \<in> set xs)) \<and>
       (\<forall>vs. Batch m vs \<in> set xs \<longrightarrow> calls_in m xs = vs) \<and>
       set (processings xs) = set (completions xs) \<and>
       (\<forall>k\<in>set (layers xs). k \<le> m) \<and>
       (\<forall>k\<in>set (layers ys'). Suc m \<le> k) \<and>
       us = (if m = 0 then [normalizeUrl P START_URL] else adds_in m xs)"
      unfolding boundaries_def by blast
    from old(1) have "Suc m \<in> set (layers tr)" by simp
    with assms(2) have "Suc m \<le> Suc n" by auto
    with o old(2) show ?thesis by auto
  qed
qed

lemma layered_init: "layered P (init P)"
  by (simp add: layered_def init_def boundaries_def)

lemma layered_step:
  assumes "layered P s" and "once s" and "main_step P s a = Some s'"
  shows "layered P s'"
proof -
  let ?n = "layer s" and ?tr = "trace s"
  from assms(1) have le: "\<forall>k\<in>set (layers ?tr). k \<le> ?n"
    and so: "sorted (layers ?tr)"
    and zero: "?n = 0 \<longrightarrow> ?tr = [] \<and> activeUrls s = [normalizeUrl P START_URL] \<and>
        currentBatch s = [] \<and> inFlight s = [] \<and> resolved s = []"
    and pos: "0 < ?n \<longrightarrow> (\<exists>vs. Batch ?n vs \<in> set ?tr) \<and> activeUrls s = adds_in ?n ?tr"
    and cur: "\<forall>vs. Batch ?n vs \<in> set ?tr \<longrightarrow> calls_in ?n ?tr @ currentBatch s = vs"
    and bd: "boundaries P ?tr"
    by (simp_all add: layered_def)
  have ext: "boundaries P (?tr @ evs)"
    if "\<And>k us. Batch k us \<notin> set evs" "set (layers evs) \<subseteq> {?n}" for evs
    using bd that(1)
  proof (rule boundaries_extend)
    fix k j assume "k \<in> set (layers evs)" "j \<in> set (layers ?tr)"
    with that(2) le show "j \<le> k" by auto
  qed
  from assms(3) show ?thesis
  proof (cases rule: main_stepE)
    case next_batch
    from assms(2) next_batch(4) have pc: "set (processings ?tr) = set (completions ?tr)"
      by (simp add: once_def)
    from cur next_batch(3) have c: "\<forall>vs. Batch ?n vs \<in> set ?tr \<longrightarrow> calls_in ?n ?tr = vs"
      by simp
    from zero pos have b: "activeUrls s = (if ?n = 0 then [normalizeUrl P START_URL]
        else adds_in ?n ?tr)" by auto
    from pos have e: "0 < ?n \<longrightarrow> (\<exists>vs. Batch ?n vs \<in> set ?tr)" by simp
    have bd': "boundaries P (?tr @ [Batch (Suc ?n) (activeUrls s)])"
      using bd le e c pc b by (rule boundaries_batch)
    from le have "Suc ?n \<notin> set (layers ?tr)" by auto
    note ab = absent_layer [OF this]
    from le so ab bd' next_batch(7) show ?thesis
      by (auto simp: layered_def sorted_append)
  next
    case (throw url rest e)
    have "boundaries P (?tr @ [Call ?n url])" by (rule ext) simp_all
    with le so zero pos cur throw show ?thesis
      by (auto simp: layered_def sorted_append)
  next
    case (skip url rest)
    have "boundaries P (?tr @ [Call ?n url, Return ?n url []])" by (rule ext) simp_all
    with le so zero pos cur skip show ?thesis
      by (auto simp: layered_def sorted_append)
  next
    case (start url rest)
    have "boundaries P (?tr @ [Call ?n url, Processing url])" by (rule ext) simp_all
    with le so zero pos cur start show ?thesis
      by (auto simp: layered_def sorted_append)
  next
    case (complete url w newUrls g)
    have "boundaries P (?tr @ [Completed url, Return ?n url newUrls])" by (rule ext) simp_all
    with le so zero pos cur complete show ?thesis
      by (auto simp: layered_def sorted_append)
  next
    case (consume k)
    let ?new = "add_new (visitedUrls (shared s)) (resolved s ! k) (activeUrls s)"
    let ?evs = "Read ?n (resolved s ! k) # map (Add ?n) (drop (length (activeUrls s)) ?new)"
    have "boundaries P (?tr @ ?evs)" by (rule ext) auto
    moreover from zero consume(3) have n: "0 < ?n" by auto
    moreover from pos n have "adds_in ?n ?tr @ drop (length (activeUrls s)) ?new = ?new"
      using add_new_drop [of "activeUrls s"] by simp
    ultimately show ?thesis
      using le so pos cur consume
      by (auto simp: layered_def sorted_append)
  qed
qed

lemma frontier_mono: "set (frontier P tr m) \<subseteq> set (frontier P (tr @ evs) m)"
  by (simp add: frontier_def)

lemma sourced_init: "sourced P (init P)"
  by (simp add: sourced_def init_def)

lemma sourced_step:
  assumes "sourced P s" and "layered P s" and "main_step P s a = Some s'"
  shows "sourced P s'"
proof -
  let ?n = "layer s" and ?tr = "trace s"
  from assms(1) have todo: "set (currentBatch s) \<subseteq> set (frontier P ?tr ?n)"
    and src: "\<And>m v. Call m v \<in> set ?tr \<Longrightarrow> 0 < m \<and> v \<in> set (frontier P ?tr m)"
    by (simp_all add: sourced_def)
  from assms(2) have zero: "?n = 0 \<longrightarrow> activeUrls s = [normalizeUrl P START_URL] \<and>
        currentBatch s = [] \<and> resolved s = []"
    and pos: "0 < ?n \<longrightarrow> activeUrls s = adds_in ?n ?tr"
    by (simp_all add: layered_def)
  have old: "0 < m \<and> v \<in> set (frontier P (?tr @ evs) m)" if "Call m v \<in> set ?tr" for m v evs
    using src [OF that] frontier_mono by blast
  have keep: "set (currentBatch s) \<subseteq> set (frontier P (?tr @ evs) ?n)" for evs
    using todo frontier_mono by blast
  have call: "0 < ?n \<and> url \<in> set (frontier P (?tr @ evs) ?n)"
    if "currentBatch s = url # rest" for url rest evs
  proof
    from that zero show "0 < ?n" by auto
    from that keep [of evs] show "url \<in> set (frontier P (?tr @ evs) ?n)" by auto
  qed
  from assms(3) show ?thesis
  proof (cases rule: main_stepE)
    case next_batch
    from zero pos have "set (activeUrls s) \<subseteq>
        set (frontier P (?tr @ [Batch (Suc ?n) (activeUrls s)]) (Suc ?n))"
      by (cases "?n = 0") (simp_all add: frontier_def)
    with next_batch(7) old show ?thesis by (auto simp: sourced_def)
  next
    case (throw url rest e)
    with old keep [of "[Call ?n url]"] call [OF throw(3), of "[Call ?n url]"] show ?thesis
      by (auto simp: sourced_def)
  next
    case (skip url rest)
    with old keep [of "[Call ?n url, Return ?n url []]"]
      call [OF skip(3), of "[Call ?n url, Return ?n url []]"] show ?thesis
      by (auto simp: sourced_def)
  next
    case (start url rest)
    with old keep [of "[Call ?n url, Processing url]"]
      call [OF start(3), of "[Call ?n url, Processing url]"] show ?thesis
      by (auto simp: sourced_def)
  next
    case (complete url w newUrls g)
    with old keep [of "[Completed url, Return ?n url newUrls]"] show ?thesis
      by (auto simp: sourced_def)
  next
    case (consume k)
    let ?evs = "Read ?n (resolved s ! k) # map (Add ?n) (drop (length (activeUrls s))
        (add_new (visitedUrls (shared s)) (resolved s ! k) (activeUrls s)))"
    have "Call m v \<notin> set ?evs" for m v by auto
    with consume old keep [of ?evs] show ?thesis
      by (auto simp: sourced_def)
  qed
qed

subsection \<open>Results, reads and link distance\<close>

lemma add_new_set: "set (add_new visited r active) = set active \<union> (set r - visited)"
proof (induction r arbitrary: active)
  case Nil
  then show ?case by simp
next
  case (Cons u r)
  show ?case unfolding add_new.simps Cons.IH by auto
qed

lemma add_new_covers:
  "v \<in> set r \<Longrightarrow> v \<in> visited \<or> v \<in> set (add_new visited r active)"
proof (induction r arbitrary: active)
  case Nil
  then show ?case by simp
next
  case (Cons u r)
  have keep: "set active' \<subseteq> set (add_new visited r active')" for active'
    by (metis add_new_drop set_append sup_ge1)
  show ?case
  proof (cases "v = u")
    case True
    show ?thesis
    proof (cases "u \<in> visited")
      case True
      with \<open>v = u\<close> show ?thesis by simp
    next
      case False
      have "u \<in> set (if u \<notin> visited \<and> u \<notin> set active then active @ [u] else active)"
        using False by simp
      with keep have "u \<in> set (add_new visited r
          (if u \<notin> visited \<and> u \<notin> set active then active @ [u] else active))"
        by blast
      with \<open>v = u\<close> show ?thesis by simp
    qed
  next
    case False
    with Cons.prems have "v \<in> set r" by simp
    from Cons.IH [OF this] show ?thesis by simp
  qed
qed

lemma add_new_sound:
  "v \<in> set (add_new visited r active) \<Longrightarrow> v \<in> set active \<or> v \<in> set r"
proof (induction r arbitrary: active)
  case Nil
  then show ?case by simp
next
  case (Cons u r)
  from Cons.prems have "v \<in> set (add_new visited r
      (if u \<notin> visited \<and> u \<notin> set active then active @ [u] else active))"
    by simp
  from Cons.IH [OF this] show ?case by (auto split: if_splits)
qed

lemma returns_in_append [simp]: "returns_in n (xs @ ys) = returns_in n xs @ returns_in n ys"
  by (simp add: returns_in_def)

lemma reads_in_append [simp]: "reads_in n (xs @ ys) = reads_in n xs @ reads_in n ys"
  by (simp add: reads_in_def)

lemma links_of_append [simp]: "links_of (xs @ ys) = links_of xs @ links_of ys"
  by (simp add: links_of_def)

lemma returns_in_simps [simp]:
  "returns_in n [] = []"
  "returns_in n (Return m u r # tr) = (if m = n then r # returns_in n tr else returns_in n tr)"
  "returns_in n (Batch m us # tr) = returns_in n tr"
  "returns_in n (Call m u # tr) = returns_in n tr"
  "returns_in n (Processing u # tr) = returns_in n tr"
  "returns_in n (Completed u # tr) = returns_in n tr"
  "returns_in n (Read m r # tr) = returns_in n tr"
  "returns_in n (Add m u # tr) = returns_in n tr"
  by (simp_all add: returns_in_def)

lemma reads_in_simps [simp]:
  "reads_in n [] = []"
  "reads_in n (Read m r # tr) = (if m = n then r # reads_in n tr else reads_in n tr)"
  "reads_in n (Batch m us # tr) = reads_in n tr"
  "reads_in n (Call m u # tr) = reads_in n tr"
  "reads_in n (Processing u # tr) = reads_in n tr"
  "reads_in n (Completed u # tr) = reads_in n tr"
  "reads_in n (Return m u r # tr) = reads_in n tr"
  "reads_in n (Add m u # tr) = reads_in n tr"
  by (simp_all add: reads_in_def)

lemma links_of_simps [simp]:
  "links_of [] = []"
  "links_of (Return n u r # tr) = map (Pair u) r @ links_of tr"
  "links_of (Batch m us # tr) = links_of tr"
  "links_of (Call m u # tr) = links_of tr"
  "links_of (Processing u # tr) = links_of tr"
  "links_of (Completed u # tr) = links_of tr"
  "links_of (Read m r # tr) = links_of tr"
  "links_of (Add m u # tr) = links_of tr"
  by (simp_all add: links_of_def)

lemma returns_in_Add [simp]: "returns_in m (map (Add n) us) = []"
  by (induction us) simp_all

lemma reads_in_Add [simp]: "reads_in m (map (Add n) us) = []"
  by (induction us) simp_all

lemma links_of_Add [simp]: "links_of (map (Add n) us) = []"
  by (induction us) simp_all

lemma links_of_iff:
  "(u, v) \<in> set (links_of tr) \<longleftrightarrow> (\<exists>n r. Return n u r \<in> set tr \<and> v \<in> set r)"
proof (induction tr)
  case Nil
  then show ?case by simp
next
  case (Cons e tr)
  then show ?case by (cases e) auto
qed

lemma absent_layer_results:
  assumes "m \<notin> set (layers tr)"
  shows "returns_in m tr = []" and "reads_in m tr = []"
proof -
  from assms show "returns_in m tr = []"
    by (induction tr) (auto simp: layers_def returns_in_def split: event.splits)
  from assms show "reads_in m tr = []"
    by (induction tr) (auto simp: layers_def reads_in_def split: event.splits)
qed

lemma reach_mono: "R \<subseteq> R' \<Longrightarrow> reach R a j \<subseteq> reach R' a j"
  by (induction j) auto

lemma reach_extend:
  assumes "\<And>i. i < k \<Longrightarrow> u \<notin> reach R a i" and "j \<le> k"
  shows "reach (R \<union> {u} \<times> V) a j = reach R a j"
  using assms(2)
proof (induction j)
  case 0
  then show ?case by simp
next
  case (Suc j)
  then have ih: "reach (R \<union> {u} \<times> V) a j = reach R a j" and "j < k" by simp_all
  with assms(1) have "u \<notin> reach R a j" by blast
  with ih show ?case by auto
qed

lemma earlier_Batch [simp]: "earlier (tr @ [Batch n us]) = processings tr"
  by (simp add: earlier_def is_batch_def)

lemma earlier_append:
  assumes "\<And>e. e \<in> set evs \<Longrightarrow> \<not> is_batch e"
  shows "earlier (tr @ evs) = earlier tr"
proof -
  from assms have "dropWhile (\<lambda>e. \<not> is_batch e) (rev evs @ rev tr) =
      dropWhile (\<lambda>e. \<not> is_batch e) (rev tr)"
    by (intro dropWhile_append2) simp
  then show ?thesis by (simp add: earlier_def)
qed

lemma earlier_processings: "set (earlier tr) \<subseteq> set (processings tr)"
proof -
  have "rev tr = takeWhile (\<lambda>e. \<not> is_batch e) (rev tr) @ dropWhile (\<lambda>e. \<not> is_batch e) (rev tr)"
    by simp
  then have "tr = rev (dropWhile (\<lambda>e. \<not> is_batch e) (rev tr)) @
      rev (takeWhile (\<lambda>e. \<not> is_batch e) (rev tr))"
    by (metis rev_append rev_rev_ident)
  then have "processings tr = earlier tr @
      processings (rev (takeWhile (\<lambda>e. \<not> is_batch e) (rev tr)))"
    unfolding earlier_def by (metis processings_append)
  then show ?thesis by (metis set_append sup_ge1)
qed

lemma collect_links_scope:
  assumes "v \<in> set (collect_links P visited url hrefs acc)"
  shows "v \<in> set acc \<or> in_scope P v"
  using assms
proof (induction hrefs arbitrary: acc)
  case Nil
  then show ?case by simp
next
  case (Cons h hrefs)
  from Cons.IH [OF Cons.prems [unfolded collect_links.simps]]
  show ?case
    by (auto simp: in_scope_def Let_def split: option.splits if_splits)
qed

lemma processUrl_resume_scope:
  assumes "processUrl_resume P w g url = (r, g')" and "v \<in> set r"
  shows "in_scope P v"
proof -
  have "in_scope P v" if "v \<in> set (collect_links P vis url hrefs [])" for vis hrefs
    using collect_links_scope [OF that] by simp
  with assms show ?thesis
    by (auto simp: processUrl_resume_def processUrl_try_def Let_def
        split: sum.splits option.splits if_splits prod.splits)
qed


lemma at_batches_extend:
  assumes "at_batches Q tr" and "\<And>k us. Batch k us \<notin> set evs"
  shows "at_batches Q (tr @ evs)"
  unfolding at_batches_def
proof (intro allI impI)
  fix xs m us ys
  assume "tr @ evs = xs @ Batch (Suc m) us # ys"
  with assms(2) obtain ys' where "tr = xs @ Batch (Suc m) us # ys'"
    using split_append by blast
  with assms(1) show "Q xs m us" unfolding at_batches_def by blast
qed

lemma at_batches_batch:
  assumes "at_batches Q tr" and "Q tr n b"
  shows "at_batches Q (tr @ [Batch (Suc n) b])"
  unfolding at_batches_def
proof (intro allI impI)
  fix xs m us ys
  assume "tr @ [Batch (Suc n) b] = xs @ Batch (Suc m) us # ys"
  then consider (new) "xs = tr" "m = n" "us = b"
    | (old) ys' where "tr = xs @ Batch (Suc m) us # ys'"
    using split_snoc [of tr "Batch (Suc n) b" xs "Batch (Suc m) us" ys] by auto
  then show "Q xs m us"
  proof cases
    case new
    with assms(2) show ?thesis by simp
  next
    case old
    with assms(1) show ?thesis unfolding at_batches_def by blast
  qed
qed

lemma at_batches_init: "at_batches Q []"
  by (simp add: at_batches_def)

lemma mset_without:
  "k < length xs \<Longrightarrow> add_mset (xs ! k) (mset (take k xs @ drop (Suc k) xs)) = mset xs"
  by (metis add_mset_add_single id_take_nth_drop mset.simps(2) mset_append union_mset_add_mset_right)

lemma set_without:
  "x \<in> set xs \<Longrightarrow> x = xs ! k \<or> x \<in> set (take k xs @ drop (Suc k) xs)"
  by (metis (no_types, lifting) Cons_nth_drop_Suc append_take_drop_id in_set_conv_nth
      linorder_not_less set_ConsD set_append take_all Un_iff)

lemma set_without_subset: "set (take k xs @ drop (Suc k) xs) \<subseteq> set xs"
  by (auto dest: in_set_takeD in_set_dropD)

lemma accountedI:
  assumes "\<And>n. mset (returns_in n (trace s)) =
           mset (reads_in n (trace s)) + (if n = layer s then mset (resolved s) else {#})"
    and "\<And>v. 0 < layer s \<Longrightarrow> v \<in> set (activeUrls s) \<Longrightarrow>
           \<exists>u r. Return (layer s) u r \<in> set (trace s) \<and> v \<in> set r"
    and "\<And>r. r \<in> set (resolved s) \<Longrightarrow> \<exists>u. Return (layer s) u r \<in> set (trace s)"
    and "\<And>u. u \<in> set (inFlight s) \<Longrightarrow> Call (layer s) u \<in> set (trace s)"
    and "\<And>n u r. Return n u r \<in> set (trace s) \<Longrightarrow> Call n u \<in> set (trace s)"
    and "\<And>n u r v. Return n u r \<in> set (trace s) \<Longrightarrow> v \<in> set r \<Longrightarrow> in_scope P v"
    and "\<And>n u r v. Return n u r \<in> set (trace s) \<Longrightarrow> v \<in> set r \<Longrightarrow>
         v \<in> set (processings (trace s)) \<or>
         (n = layer s \<and> (v \<in> set (activeUrls s) \<or> r \<in> set (resolved s))) \<or>
         (Suc n = layer s \<and> v \<in> set (currentBatch s))"
    and "at_batches harvested (trace s)"
  shows "accounted P s"
  unfolding accounted_def using assms by blast

lemma accounted_init: "accounted P (init P)"
  by (simp add: accounted_def init_def at_batches_init)


lemma accounted_step:
  assumes "accounted P s" and "once s" and "layered P s" and "main_step P s a = Some s'"
  shows "accounted P s'"
proof -
  let ?n = "layer s" and ?tr = "trace s"
  from assms(1) have ret: "\<And>n. mset (returns_in n ?tr) =
        mset (reads_in n ?tr) + (if n = ?n then mset (resolved s) else {#})"
    and act: "\<And>v. 0 < ?n \<Longrightarrow> v \<in> set (activeUrls s) \<Longrightarrow>
        \<exists>u r. Return ?n u r \<in> set ?tr \<and> v \<in> set r"
    and res: "\<And>r. r \<in> set (resolved s) \<Longrightarrow> \<exists>u. Return ?n u r \<in> set ?tr"
    and fly: "\<And>u. u \<in> set (inFlight s) \<Longrightarrow> Call ?n u \<in> set ?tr"
    and called: "\<And>n u r. Return n u r \<in> set ?tr \<Longrightarrow> Call n u \<in> set ?tr"
    and scoped: "\<And>n u r v. Return n u r \<in> set ?tr \<Longrightarrow> v \<in> set r \<Longrightarrow> in_scope P v"
    and placed: "\<And>n u r v. Return n u r \<in> set ?tr \<Longrightarrow> v \<in> set r \<Longrightarrow>
        v \<in> set (processings ?tr) \<or>
        (n = ?n \<and> (v \<in> set (activeUrls s) \<or> r \<in> set (resolved s))) \<or>
        (Suc n = ?n \<and> v \<in> set (currentBatch s))"
    and hv: "at_batches harvested ?tr"
    unfolding accounted_def by blast+
  from assms(2) have vis: "visitedUrls (shared s) = set (processings ?tr)"
    by (simp add: once_def)
  from assms(3) have le: "\<forall>k\<in>set (layers ?tr). k \<le> ?n"
    and zero: "?n = 0 \<longrightarrow> currentBatch s = [] \<and> inFlight s = [] \<and> resolved s = []"
    by (simp_all add: layered_def)
  have ext: "at_batches harvested (?tr @ evs)" if "\<And>k us. Batch k us \<notin> set evs" for evs
    using hv that by (rule at_batches_extend)
  from assms(4) show ?thesis
  proof (cases rule: main_stepE)
    case next_batch
    note s' = next_batch(7)
    from le have "Suc ?n \<notin> set (layers ?tr)" by auto
    note ab = absent_layer_results [OF this]
    have h: "harvested ?tr ?n (activeUrls s)"
      unfolding harvested_def
    proof (intro conjI allI impI ballI)
      fix n show "mset (returns_in n ?tr) = mset (reads_in n ?tr)"
        using ret [of n] next_batch(5) by simp
    next
      fix v assume "0 < ?n" "v \<in> set (activeUrls s)"
      then show "\<exists>u r. Return ?n u r \<in> set ?tr \<and> v \<in> set r" by (rule act)
    next
      fix n u r v assume "Return n u r \<in> set ?tr" "v \<in> set r"
      from placed [OF this] next_batch(3,5)
      show "v \<in> set (processings ?tr) \<or> n = ?n \<and> v \<in> set (activeUrls s)" by auto
    qed
    show ?thesis
    proof (rule accountedI)
      fix n
      show "mset (returns_in n (trace s')) =
          mset (reads_in n (trace s')) + (if n = layer s' then mset (resolved s') else {#})"
        using ret [of n] ab next_batch(5) by (simp add: s')
    next
      fix v assume "0 < layer s'" "v \<in> set (activeUrls s')"
      then show "\<exists>u r. Return (layer s') u r \<in> set (trace s') \<and> v \<in> set r"
        by (simp add: s')
    next
      fix r assume "r \<in> set (resolved s')"
      with next_batch(5) show "\<exists>u. Return (layer s') u r \<in> set (trace s')"
        by (simp add: s')
    next
      fix u assume "u \<in> set (inFlight s')"
      with next_batch(4) show "Call (layer s') u \<in> set (trace s')" by (simp add: s')
    next
      fix n u r assume "Return n u r \<in> set (trace s')"
      then have "Return n u r \<in> set ?tr" by (simp add: s')
      from called [OF this] show "Call n u \<in> set (trace s')" by (simp add: s')
    next
      fix n u r v assume "Return n u r \<in> set (trace s')" "v \<in> set r"
      then have "Return n u r \<in> set ?tr" "v \<in> set r" by (simp_all add: s')
      then show "in_scope P v" by (rule scoped)
    next
      fix n u r v assume "Return n u r \<in> set (trace s')" "v \<in> set r"
      then have "Return n u r \<in> set ?tr" "v \<in> set r" by (simp_all add: s')
      from placed [OF this] next_batch(3,5)
      show "v \<in> set (processings (trace s')) \<or>
         (n = layer s' \<and> (v \<in> set (activeUrls s') \<or> r \<in> set (resolved s'))) \<or>
         (Suc n = layer s' \<and> v \<in> set (currentBatch s'))"
        by (auto simp: s')
    next
      from hv h show "at_batches harvested (trace s')"
        unfolding s' by (simp add: at_batches_batch)
    qed
  next
    case (throw url rest e)
    note s' = throw(5)
    have none: "\<not> in_scope P v" for v using throw(6) by (simp add: in_scope_def)
    show ?thesis
    proof (rule accountedI)
      fix n
      show "mset (returns_in n (trace s')) =
          mset (reads_in n (trace s')) + (if n = layer s' then mset (resolved s') else {#})"
        using ret [of n] by (simp add: s')
    next
      fix v assume "0 < layer s'" "v \<in> set (activeUrls s')"
      then have "0 < ?n" "v \<in> set (activeUrls s)" by (simp_all add: s')
      from act [OF this]
      show "\<exists>u r. Return (layer s') u r \<in> set (trace s') \<and> v \<in> set r"
        by (auto simp: s')
    next
      fix r assume "r \<in> set (resolved s')"
      then have "r \<in> set (resolved s)" by (simp add: s')
      from res [OF this] show "\<exists>u. Return (layer s') u r \<in> set (trace s')"
        by (auto simp: s')
    next
      fix u assume "u \<in> set (inFlight s')"
      then have "u \<in> set (inFlight s)" by (simp add: s')
      from fly [OF this] show "Call (layer s') u \<in> set (trace s')" by (simp add: s')
    next
      fix n u r assume "Return n u r \<in> set (trace s')"
      then have "Return n u r \<in> set ?tr" by (simp add: s')
      from called [OF this] show "Call n u \<in> set (trace s')" by (simp add: s')
    next
      fix n u r v assume "Return n u r \<in> set (trace s')" "v \<in> set r"
      then have "Return n u r \<in> set ?tr" "v \<in> set r" by (simp_all add: s')
      then show "in_scope P v" by (rule scoped)
    next
      fix n u r v assume "Return n u r \<in> set (trace s')" "v \<in> set r"
      then have "Return n u r \<in> set ?tr" "v \<in> set r" by (simp_all add: s')
      from scoped [OF this] none
      show "v \<in> set (processings (trace s')) \<or>
         (n = layer s' \<and> (v \<in> set (activeUrls s') \<or> r \<in> set (resolved s'))) \<or>
         (Suc n = layer s' \<and> v \<in> set (currentBatch s'))"
        by simp
    next
      show "at_batches harvested (trace s')" unfolding s' by (simp add: ext)
    qed
  next
    case (skip url rest)
    note s' = skip(5)
    show ?thesis
    proof (rule accountedI)
      fix n
      show "mset (returns_in n (trace s')) =
          mset (reads_in n (trace s')) + (if n = layer s' then mset (resolved s') else {#})"
        using ret [of n] by (simp add: s')
    next
      fix v assume "0 < layer s'" "v \<in> set (activeUrls s')"
      then have "0 < ?n" "v \<in> set (activeUrls s)" by (simp_all add: s')
      from act [OF this]
      show "\<exists>u r. Return (layer s') u r \<in> set (trace s') \<and> v \<in> set r"
        by (auto simp: s')
    next
      fix r assume "r \<in> set (resolved s')"
      then consider "r \<in> set (resolved s)" | "r = []" by (auto simp: s')
      then show "\<exists>u. Return (layer s') u r \<in> set (trace s')"
      proof cases
        case 1
        from res [OF this] show ?thesis by (auto simp: s')
      next
        case 2
        then show ?thesis by (auto simp: s')
      qed
    next
      fix u assume "u \<in> set (inFlight s')"
      then have "u \<in> set (inFlight s)" by (simp add: s')
      from fly [OF this] show "Call (layer s') u \<in> set (trace s')" by (simp add: s')
    next
      fix n u r assume "Return n u r \<in> set (trace s')"
      then consider "Return n u r \<in> set ?tr" | "n = ?n" "u = url" by (auto simp: s')
      then show "Call n u \<in> set (trace s')"
      proof cases
        case 1
        from called [OF this] show ?thesis by (simp add: s')
      next
        case 2
        then show ?thesis by (simp add: s')
      qed
    next
      fix n u r v assume "Return n u r \<in> set (trace s')" "v \<in> set r"
      then have "Return n u r \<in> set ?tr" "v \<in> set r" by (auto simp: s')
      then show "in_scope P v" by (rule scoped)
    next
      fix n u r v assume "Return n u r \<in> set (trace s')" "v \<in> set r"
      then have old: "Return n u r \<in> set ?tr" "v \<in> set r" by (auto simp: s')
      from scoped [OF old] skip(6) vis
      have "v = url \<longrightarrow> v \<in> set (processings ?tr)" by auto
      with placed [OF old] skip(3)
      show "v \<in> set (processings (trace s')) \<or>
         (n = layer s' \<and> (v \<in> set (activeUrls s') \<or> r \<in> set (resolved s'))) \<or>
         (Suc n = layer s' \<and> v \<in> set (currentBatch s'))"
        by (auto simp: s')
    next
      show "at_batches harvested (trace s')" unfolding s' by (simp add: ext)
    qed
  next
    case (start url rest)
    note s' = start(7)
    show ?thesis
    proof (rule accountedI)
      fix n
      show "mset (returns_in n (trace s')) =
          mset (reads_in n (trace s')) + (if n = layer s' then mset (resolved s') else {#})"
        using ret [of n] by (simp add: s')
    next
      fix v assume "0 < layer s'" "v \<in> set (activeUrls s')"
      then have "0 < ?n" "v \<in> set (activeUrls s)" by (simp_all add: s')
      from act [OF this]
      show "\<exists>u r. Return (layer s') u r \<in> set (trace s') \<and> v \<in> set r"
        by (auto simp: s')
    next
      fix r assume "r \<in> set (resolved s')"
      then have "r \<in> set (resolved s)" by (simp add: s')
      from res [OF this] show "\<exists>u. Return (layer s') u r \<in> set (trace s')"
        by (auto simp: s')
    next
      fix u assume "u \<in> set (inFlight s')"
      then consider "u \<in> set (inFlight s)" | "u = url" by (auto simp: s')
      then show "Call (layer s') u \<in> set (trace s')"
      proof cases
        case 1
        from fly [OF this] show ?thesis by (simp add: s')
      next
        case 2
        then show ?thesis by (simp add: s')
      qed
    next
      fix n u r assume "Return n u r \<in> set (trace s')"
      then have "Return n u r \<in> set ?tr" by (simp add: s')
      from called [OF this] show "Call n u \<in> set (trace s')" by (simp add: s')
    next
      fix n u r v assume "Return n u r \<in> set (trace s')" "v \<in> set r"
      then have "Return n u r \<in> set ?tr" "v \<in> set r" by (simp_all add: s')
      then show "in_scope P v" by (rule scoped)
    next
      fix n u r v assume "Return n u r \<in> set (trace s')" "v \<in> set r"
      then have old: "Return n u r \<in> set ?tr" "v \<in> set r" by (simp_all add: s')
      from placed [OF old] start(3)
      show "v \<in> set (processings (trace s')) \<or>
         (n = layer s' \<and> (v \<in> set (activeUrls s') \<or> r \<in> set (resolved s'))) \<or>
         (Suc n = layer s' \<and> v \<in> set (currentBatch s'))"
        by (auto simp: s')
    next
      show "at_batches harvested (trace s')" unfolding s' by (simp add: ext)
    qed
  next
    case (complete url w newUrls g)
    note s' = complete(5)
    show ?thesis
    proof (rule accountedI)
      fix n
      show "mset (returns_in n (trace s')) =
          mset (reads_in n (trace s')) + (if n = layer s' then mset (resolved s') else {#})"
        using ret [of n] by (simp add: s')
    next
      fix v assume "0 < layer s'" "v \<in> set (activeUrls s')"
      then have "0 < ?n" "v \<in> set (activeUrls s)" by (simp_all add: s')
      from act [OF this]
      show "\<exists>u r. Return (layer s') u r \<in> set (trace s') \<and> v \<in> set r"
        by (auto simp: s')
    next
      fix r assume "r \<in> set (resolved s')"
      then consider "r \<in> set (resolved s)" | "r = newUrls" by (auto simp: s')
      then show "\<exists>u. Return (layer s') u r \<in> set (trace s')"
      proof cases
        case 1
        from res [OF this] show ?thesis by (auto simp: s')
      next
        case 2
        then show ?thesis by (auto simp: s')
      qed
    next
      fix u assume "u \<in> set (inFlight s')"
      then have "u \<in> set (remove1 url (inFlight s))" by (simp add: s')
      then have "u \<in> set (inFlight s)" using set_remove1_subset [of url "inFlight s"] by blast
      from fly [OF this] show "Call (layer s') u \<in> set (trace s')" by (simp add: s')
    next
      fix n u r assume "Return n u r \<in> set (trace s')"
      then consider "Return n u r \<in> set ?tr" | "n = ?n" "u = url" by (auto simp: s')
      then show "Call n u \<in> set (trace s')"
      proof cases
        case 1
        from called [OF this] show ?thesis by (simp add: s')
      next
        case 2
        with fly [OF complete(3)] show ?thesis by (simp add: s')
      qed
    next
      fix n u r v assume "Return n u r \<in> set (trace s')" "v \<in> set r"
      then consider "Return n u r \<in> set ?tr" | "r = newUrls" by (auto simp: s')
      then show "in_scope P v"
      proof cases
        case 1
        then show ?thesis using \<open>v \<in> set r\<close> by (rule scoped)
      next
        case 2
        with complete(4) \<open>v \<in> set r\<close> show ?thesis
          using processUrl_resume_scope by blast
      qed
    next
      fix n u r v assume a: "Return n u r \<in> set (trace s')" "v \<in> set r"
      then consider "Return n u r \<in> set ?tr" | "n = ?n" "r = newUrls" by (auto simp: s')
      then show "v \<in> set (processings (trace s')) \<or>
         (n = layer s' \<and> (v \<in> set (activeUrls s') \<or> r \<in> set (resolved s'))) \<or>
         (Suc n = layer s' \<and> v \<in> set (currentBatch s'))"
      proof cases
        case 1
        from placed [OF this a(2)] show ?thesis by (auto simp: s')
      next
        case 2
        then show ?thesis by (simp add: s')
      qed
    next
      show "at_batches harvested (trace s')" unfolding s' by (simp add: ext)
    qed
  next
    case (consume k)
    note s' = consume(4)
    let ?r = "resolved s ! k"
    let ?new = "add_new (visitedUrls (shared s)) ?r (activeUrls s)"
    let ?rest = "take k (resolved s) @ drop (Suc k) (resolved s)"
    from zero consume(3) have pos: "0 < ?n" by auto
    from consume(3) have rk: "?r \<in> set (resolved s)" by simp
    have keep: "set (activeUrls s) \<subseteq> set ?new"
      by (metis add_new_drop set_append sup_ge1)
    define adds where "adds = drop (length (activeUrls s)) ?new"
    have tr': "trace s' = ?tr @ Read ?n ?r # map (Add ?n) adds"
      by (simp add: s' adds_def)
    have same: "Return n u r \<in> set (trace s') \<longleftrightarrow> Return n u r \<in> set ?tr" for n u r
      unfolding tr' by auto
    have samec: "Call n u \<in> set (trace s') \<longleftrightarrow> Call n u \<in> set ?tr" for n u
      unfolding tr' by auto
    have l': "layer s' = ?n" "activeUrls s' = ?new" "resolved s' = ?rest"
      "inFlight s' = inFlight s" "currentBatch s' = currentBatch s"
      by (simp_all add: s')
    have p': "processings (trace s') = processings ?tr"
      unfolding tr' by simp
    show ?thesis
    proof (rule accountedI)
      fix n
      show "mset (returns_in n (trace s')) =
          mset (reads_in n (trace s')) + (if n = layer s' then mset (resolved s') else {#})"
      proof (cases "n = ?n")
        case True
        have "mset (returns_in n (trace s')) = mset (returns_in n ?tr)"
          unfolding tr' by simp
        also have "\<dots> = mset (reads_in n ?tr) + mset (resolved s)"
          using ret [of n] True by simp
        also have "mset (resolved s) = add_mset ?r (mset ?rest)"
          by (rule mset_without [OF consume(3), symmetric])
        also have "mset (reads_in n ?tr) + add_mset ?r (mset ?rest) =
            mset (reads_in n (trace s')) + mset ?rest"
          unfolding tr' using True by simp
        finally show ?thesis using True unfolding l' by simp
      next
        case False
        have "mset (returns_in n (trace s')) = mset (returns_in n ?tr)"
          unfolding tr' by simp
        also have "\<dots> = mset (reads_in n ?tr)"
          using ret [of n] False by simp
        also have "\<dots> = mset (reads_in n (trace s'))"
          unfolding tr' using False by simp
        finally show ?thesis using False unfolding l' by simp
      qed
    next
      fix v assume "0 < layer s'" "v \<in> set (activeUrls s')"
      then have "v \<in> set ?new" by (simp add: l')
      then consider "v \<in> set (activeUrls s)" | "v \<in> set ?r"
        using add_new_sound by blast
      then show "\<exists>u r. Return (layer s') u r \<in> set (trace s') \<and> v \<in> set r"
      proof cases
        case 1
        from act [OF pos this] show ?thesis unfolding same l' .
      next
        case 2
        with res [OF rk] show ?thesis unfolding same l' by blast
      qed
    next
      fix r assume "r \<in> set (resolved s')"
      then have "r \<in> set (resolved s)" using set_without_subset [of k "resolved s"] unfolding l' by blast
      from res [OF this] show "\<exists>u. Return (layer s') u r \<in> set (trace s')"
        unfolding same l' .
    next
      fix u assume "u \<in> set (inFlight s')"
      then have "u \<in> set (inFlight s)" by (simp add: l')
      from fly [OF this] show "Call (layer s') u \<in> set (trace s')" unfolding samec l' .
    next
      fix n u r assume "Return n u r \<in> set (trace s')"
      then have "Return n u r \<in> set ?tr" unfolding same .
      from called [OF this] show "Call n u \<in> set (trace s')" unfolding samec .
    next
      fix n u r v assume "Return n u r \<in> set (trace s')" "v \<in> set r"
      then have "Return n u r \<in> set ?tr" "v \<in> set r" unfolding same .
      then show "in_scope P v" by (rule scoped)
    next
      fix n u r v assume "Return n u r \<in> set (trace s')" "v \<in> set r"
      then have old: "Return n u r \<in> set ?tr" "v \<in> set r" unfolding same .
      have "v \<in> set (processings ?tr) \<or> (n = ?n \<and> (v \<in> set ?new \<or> r \<in> set ?rest)) \<or>
          (Suc n = ?n \<and> v \<in> set (currentBatch s))"
      proof (cases "n = ?n \<and> r \<in> set (resolved s) \<and> r \<notin> set ?rest")
        case True
        with set_without [of r "resolved s" k] have "r = ?r" by blast
        with old(2) add_new_covers [of v ?r "visitedUrls (shared s)" "activeUrls s"] vis True
        show ?thesis by blast
      next
        case False
        with placed [OF old] keep show ?thesis by blast
      qed
      then show "v \<in> set (processings (trace s')) \<or>
         (n = layer s' \<and> (v \<in> set (activeUrls s') \<or> r \<in> set (resolved s'))) \<or>
         (Suc n = layer s' \<and> v \<in> set (currentBatch s'))"
        unfolding l' p' .
    next
      show "at_batches harvested (trace s')" unfolding tr' by (rule ext) auto
    qed
  qed
qed


lemma at_steps_0 [simp]: "at_steps P tr 0 = {normalizeUrl P START_URL}"
  by (simp add: at_steps_def)

lemma at_steps_mono: "at_steps P tr j \<subseteq> at_steps P (tr @ evs) j"
  unfolding at_steps_def by (rule reach_mono) simp

lemma at_steps_same: "links_of evs = [] \<Longrightarrow> at_steps P (tr @ evs) j = at_steps P tr j"
  by (simp add: at_steps_def)

lemma at_steps_Suc:
  "v \<in> at_steps P tr (Suc j) \<longleftrightarrow>
     (\<exists>u n r. u \<in> at_steps P tr j \<and> Return n u r \<in> set tr \<and> v \<in> set r)"
proof -
  have "v \<in> at_steps P tr (Suc j) \<longleftrightarrow> (\<exists>u\<in>at_steps P tr j. (u, v) \<in> set (links_of tr))"
    by (auto simp: at_steps_def)
  then show ?thesis unfolding links_of_iff by blast
qed

lemma at_steps_return:
  assumes "\<And>i. i < k \<Longrightarrow> u \<notin> at_steps P tr i" and "j \<le> k"
  shows "at_steps P (tr @ [Completed u, Return n u r]) j = at_steps P tr j"
proof -
  have "set (links_of (tr @ [Completed u, Return n u r])) = set (links_of tr) \<union> {u} \<times> set r"
    by auto
  with reach_extend [of k u "set (links_of tr)" "normalizeUrl P START_URL" j "set r"] assms
  show ?thesis by (simp add: at_steps_def)
qed

lemma at_steps_scope:
  assumes "in_scope P (normalizeUrl P START_URL)"
    and "\<And>n u r v. Return n u r \<in> set tr \<Longrightarrow> v \<in> set r \<Longrightarrow> in_scope P v"
    and "v \<in> at_steps P tr j"
  shows "in_scope P v"
proof (cases j)
  case 0
  with assms(1,3) show ?thesis by simp
next
  case (Suc i)
  from assms(3) [unfolded Suc at_steps_Suc]
  obtain u n r where "Return n u r \<in> set tr" "v \<in> set r" by blast
  then show ?thesis by (rule assms(2))
qed

lemma gradedI:
  assumes "set (activeUrls s) \<subseteq> at_steps P (trace s) (layer s)"
    and "\<And>r. r \<in> set (resolved s) \<Longrightarrow> set r \<subseteq> at_steps P (trace s) (layer s)"
    and "0 < layer s \<Longrightarrow>
         set (currentBatch s) \<union> set (inFlight s) \<subseteq> at_steps P (trace s) (layer s - 1)"
    and "set (inFlight s) \<inter> set (earlier (trace s)) = {}"
    and "\<And>j. in_scope P (normalizeUrl P START_URL) \<Longrightarrow> Suc j < layer s \<Longrightarrow>
         at_steps P (trace s) j \<subseteq> set (earlier (trace s))"
    and "in_scope P (normalizeUrl P START_URL) \<Longrightarrow> 0 < layer s \<Longrightarrow>
         at_steps P (trace s) (layer s - 1) \<subseteq>
           set (processings (trace s)) \<union> set (currentBatch s)"
    and "at_batches (ranked P) (trace s)"
  shows "graded P s"
  unfolding graded_def using assms by blast

lemma graded_init: "graded P (init P)"
  by (simp add: graded_def init_def at_batches_init earlier_def)

lemma graded_step:
  assumes "graded P s" and "accounted P s" and "once s" and "layered P s"
    and "main_step P s a = Some s'"
  shows "graded P s'"
proof -
  let ?n = "layer s" and ?tr = "trace s" and ?a = "normalizeUrl P START_URL"
  from assms(1) have act: "set (activeUrls s) \<subseteq> at_steps P ?tr ?n"
    and res: "\<And>r. r \<in> set (resolved s) \<Longrightarrow> set r \<subseteq> at_steps P ?tr ?n"
    and cur: "0 < ?n \<Longrightarrow> set (currentBatch s) \<union> set (inFlight s) \<subseteq> at_steps P ?tr (?n - 1)"
    and fresh: "set (inFlight s) \<inter> set (earlier ?tr) = {}"
    and near: "\<And>j. in_scope P ?a \<Longrightarrow> Suc j < ?n \<Longrightarrow> at_steps P ?tr j \<subseteq> set (earlier ?tr)"
    and last: "in_scope P ?a \<Longrightarrow> 0 < ?n \<Longrightarrow>
        at_steps P ?tr (?n - 1) \<subseteq> set (processings ?tr) \<union> set (currentBatch s)"
    and rk: "at_batches (ranked P) ?tr"
    unfolding graded_def by blast+
  from assms(2) have scoped: "\<And>n u r v. Return n u r \<in> set ?tr \<Longrightarrow> v \<in> set r \<Longrightarrow> in_scope P v"
    and placed: "\<And>n u r v. Return n u r \<in> set ?tr \<Longrightarrow> v \<in> set r \<Longrightarrow>
        v \<in> set (processings ?tr) \<or>
        (n = ?n \<and> (v \<in> set (activeUrls s) \<or> r \<in> set (resolved s))) \<or>
        (Suc n = ?n \<and> v \<in> set (currentBatch s))"
    unfolding accounted_def by blast+
  from assms(3) have vis: "visitedUrls (shared s) = set (processings ?tr)"
    by (simp add: once_def)
  from assms(4) have zero: "?n = 0 \<longrightarrow> activeUrls s = [?a] \<and> currentBatch s = [] \<and>
      inFlight s = [] \<and> resolved s = []"
    by (simp add: layered_def)
  have ext: "at_batches (ranked P) (?tr @ evs)" if "\<And>k us. Batch k us \<notin> set evs" for evs
    using rk that by (rule at_batches_extend)
  note ep = earlier_processings [of ?tr]
  from assms(5) show ?thesis
  proof (cases rule: main_stepE)
    case next_batch
    note s' = next_batch(7)
    have tr': "trace s' = ?tr @ [Batch (Suc ?n) (activeUrls s)]" by (simp add: s')
    have st: "at_steps P (trace s') j = at_steps P ?tr j" for j
      unfolding tr' by (rule at_steps_same) simp
    have l': "layer s' = Suc ?n" "activeUrls s' = []" "resolved s' = []" "inFlight s' = []"
      "currentBatch s' = activeUrls s" "earlier (trace s') = processings ?tr"
      "processings (trace s') = processings ?tr"
      using next_batch(4,5) by (simp_all add: s')
    have before: "at_steps P ?tr j \<subseteq> set (processings ?tr)"
      if sc: "in_scope P ?a" and j: "j < ?n" for j
    proof (cases "Suc j < ?n")
      case True
      from near [OF sc this] ep show ?thesis by blast
    next
      case False
      with j have "j = ?n - 1" "0 < ?n" by simp_all
      with last [OF sc] next_batch(3) show ?thesis by simp
    qed
    have rank: "ranked P ?tr ?n (activeUrls s)"
      unfolding ranked_def using act before by blast
    show ?thesis
    proof (rule gradedI)
      show "set (activeUrls s') \<subseteq> at_steps P (trace s') (layer s')" by (simp add: l')
    next
      fix r assume "r \<in> set (resolved s')"
      then show "set r \<subseteq> at_steps P (trace s') (layer s')" by (simp add: l')
    next
      show "set (currentBatch s') \<union> set (inFlight s') \<subseteq> at_steps P (trace s') (layer s' - 1)"
        unfolding st l' using act by simp
    next
      show "set (inFlight s') \<inter> set (earlier (trace s')) = {}" by (simp add: l')
    next
      fix j assume "in_scope P ?a" "Suc j < layer s'"
      then have "in_scope P ?a" "j < ?n" by (simp_all add: l')
      from before [OF this] show "at_steps P (trace s') j \<subseteq> set (earlier (trace s'))"
        unfolding st l' .
    next
      have "at_steps P ?tr ?n \<subseteq> set (processings ?tr) \<union> set (activeUrls s)"
      proof (cases ?n)
        case 0
        with zero show ?thesis by simp
      next
        case (Suc i)
        show ?thesis
        proof
          fix v assume "v \<in> at_steps P ?tr ?n"
          then obtain u n r where "Return n u r \<in> set ?tr" "v \<in> set r"
            unfolding Suc at_steps_Suc by blast
          from placed [OF this] next_batch(3,5)
          show "v \<in> set (processings ?tr) \<union> set (activeUrls s)" by auto
        qed
      qed
      then show "at_steps P (trace s') (layer s' - 1) \<subseteq>
          set (processings (trace s')) \<union> set (currentBatch s')"
        unfolding st l' by simp
    next
      from rk rank show "at_batches (ranked P) (trace s')"
        unfolding tr' by (rule at_batches_batch)
    qed
  next
    case (throw url rest e)
    note s' = throw(5)
    have tr': "trace s' = ?tr @ [Call ?n url]" by (simp add: s')
    have st: "at_steps P (trace s') j = at_steps P ?tr j" for j
      unfolding tr' by (rule at_steps_same) simp
    have ea: "earlier (trace s') = earlier ?tr"
      unfolding tr' by (rule earlier_append) (simp add: is_batch_def)
    have l': "layer s' = ?n" "activeUrls s' = activeUrls s" "resolved s' = resolved s"
      "inFlight s' = inFlight s" "currentBatch s' = rest"
      by (simp_all add: s')
    have none: "\<not> in_scope P v" for v using throw(6) by (simp add: in_scope_def)
    show ?thesis
    proof (rule gradedI)
      show "set (activeUrls s') \<subseteq> at_steps P (trace s') (layer s')"
        unfolding st l' by (rule act)
    next
      fix r assume "r \<in> set (resolved s')"
      then show "set r \<subseteq> at_steps P (trace s') (layer s')"
        unfolding st l' by (rule res)
    next
      assume "0 < layer s'"
      then have "0 < ?n" by (simp add: l')
      from cur [OF this] throw(3)
      show "set (currentBatch s') \<union> set (inFlight s') \<subseteq> at_steps P (trace s') (layer s' - 1)"
        unfolding st l' by auto
    next
      show "set (inFlight s') \<inter> set (earlier (trace s')) = {}"
        unfolding ea l' by (rule fresh)
    next
      fix j assume "in_scope P ?a" "Suc j < layer s'"
      with none show "at_steps P (trace s') j \<subseteq> set (earlier (trace s'))" by blast
    next
      assume "in_scope P ?a"
      with none show "at_steps P (trace s') (layer s' - 1) \<subseteq>
          set (processings (trace s')) \<union> set (currentBatch s')" by blast
    next
      show "at_batches (ranked P) (trace s')" unfolding tr' by (rule ext) simp
    qed
  next
    case (skip url rest)
    note s' = skip(5)
    have tr': "trace s' = ?tr @ [Call ?n url, Return ?n url []]" by (simp add: s')
    have st: "at_steps P (trace s') j = at_steps P ?tr j" for j
      unfolding tr' by (rule at_steps_same) simp
    have ea: "earlier (trace s') = earlier ?tr"
      unfolding tr' by (rule earlier_append) (auto simp: is_batch_def)
    have l': "layer s' = ?n" "activeUrls s' = activeUrls s" "resolved s' = resolved s @ [[]]"
      "inFlight s' = inFlight s" "currentBatch s' = rest"
      "processings (trace s') = processings ?tr"
      by (simp_all add: s')
    show ?thesis
    proof (rule gradedI)
      show "set (activeUrls s') \<subseteq> at_steps P (trace s') (layer s')"
        unfolding st l' by (rule act)
    next
      fix r assume "r \<in> set (resolved s')"
      then consider "r \<in> set (resolved s)" | "r = []" by (auto simp: l')
      then show "set r \<subseteq> at_steps P (trace s') (layer s')"
      proof cases
        case 1
        then show ?thesis unfolding st l' by (rule res)
      next
        case 2
        then show ?thesis by simp
      qed
    next
      assume "0 < layer s'"
      then have "0 < ?n" by (simp add: l')
      from cur [OF this] skip(3)
      show "set (currentBatch s') \<union> set (inFlight s') \<subseteq> at_steps P (trace s') (layer s' - 1)"
        unfolding st l' by auto
    next
      show "set (inFlight s') \<inter> set (earlier (trace s')) = {}"
        unfolding ea l' by (rule fresh)
    next
      fix j assume "in_scope P ?a" "Suc j < layer s'"
      then have "in_scope P ?a" "Suc j < ?n" by (simp_all add: l')
      then show "at_steps P (trace s') j \<subseteq> set (earlier (trace s'))"
        unfolding st ea by (rule near)
    next
      assume sc: "in_scope P ?a" and "0 < layer s'"
      then have pos: "0 < ?n" by (simp add: l')
      have "at_steps P ?tr (?n - 1) \<subseteq> set (processings ?tr) \<union> set rest"
      proof
        fix v assume v: "v \<in> at_steps P ?tr (?n - 1)"
        with last [OF sc pos] skip(3)
        consider "v \<in> set (processings ?tr) \<union> set rest" | "v = url" by auto
        then show "v \<in> set (processings ?tr) \<union> set rest"
        proof cases
          case 1
          then show ?thesis .
        next
          case 2
          from sc scoped v have "in_scope P v" by (rule at_steps_scope)
          with 2 skip(6) vis show ?thesis by simp
        qed
      qed
      then show "at_steps P (trace s') (layer s' - 1) \<subseteq>
          set (processings (trace s')) \<union> set (currentBatch s')"
        unfolding st l' .
    next
      show "at_batches (ranked P) (trace s')" unfolding tr' by (rule ext) simp
    qed
  next
    case (start url rest)
    note s' = start(7)
    have tr': "trace s' = ?tr @ [Call ?n url, Processing url]" by (simp add: s')
    have st: "at_steps P (trace s') j = at_steps P ?tr j" for j
      unfolding tr' by (rule at_steps_same) simp
    have ea: "earlier (trace s') = earlier ?tr"
      unfolding tr' by (rule earlier_append) (auto simp: is_batch_def)
    have l': "layer s' = ?n" "activeUrls s' = activeUrls s" "resolved s' = resolved s"
      "inFlight s' = inFlight s @ [url]" "currentBatch s' = rest"
      "processings (trace s') = processings ?tr @ [url]"
      by (simp_all add: s')
    show ?thesis
    proof (rule gradedI)
      show "set (activeUrls s') \<subseteq> at_steps P (trace s') (layer s')"
        unfolding st l' by (rule act)
    next
      fix r assume "r \<in> set (resolved s')"
      then show "set r \<subseteq> at_steps P (trace s') (layer s')"
        unfolding st l' by (rule res)
    next
      assume "0 < layer s'"
      then have "0 < ?n" by (simp add: l')
      from cur [OF this] start(3)
      show "set (currentBatch s') \<union> set (inFlight s') \<subseteq> at_steps P (trace s') (layer s' - 1)"
        unfolding st l' by auto
    next
      from start(5) vis ep have "url \<notin> set (earlier ?tr)" by blast
      with fresh show "set (inFlight s') \<inter> set (earlier (trace s')) = {}"
        unfolding ea l' by auto
    next
      fix j assume "in_scope P ?a" "Suc j < layer s'"
      then have "in_scope P ?a" "Suc j < ?n" by (simp_all add: l')
      then show "at_steps P (trace s') j \<subseteq> set (earlier (trace s'))"
        unfolding st ea by (rule near)
    next
      assume sc: "in_scope P ?a" and "0 < layer s'"
      then have pos: "0 < ?n" by (simp add: l')
      from last [OF sc pos] start(3)
      show "at_steps P (trace s') (layer s' - 1) \<subseteq>
          set (processings (trace s')) \<union> set (currentBatch s')"
        unfolding st l' by auto
    next
      show "at_batches (ranked P) (trace s')" unfolding tr' by (rule ext) simp
    qed
  next
    case (complete url w newUrls g)
    note s' = complete(5)
    have tr': "trace s' = ?tr @ [Completed url, Return ?n url newUrls]" by (simp add: s')
    have mono: "at_steps P ?tr j \<subseteq> at_steps P (trace s') j" for j
      unfolding tr' by (rule at_steps_mono)
    have ea: "earlier (trace s') = earlier ?tr"
      unfolding tr' by (rule earlier_append) (auto simp: is_batch_def)
    have l': "layer s' = ?n" "activeUrls s' = activeUrls s"
      "resolved s' = resolved s @ [newUrls]"
      "inFlight s' = remove1 url (inFlight s)" "currentBatch s' = currentBatch s"
      "processings (trace s') = processings ?tr"
      by (simp_all add: s')
    from zero complete(3) have pos: "0 < ?n" by auto
    from cur [OF pos] complete(3) have at: "url \<in> at_steps P ?tr (?n - 1)" by blast
    have st: "at_steps P (trace s') j = at_steps P ?tr j"
      if sc: "in_scope P ?a" and j: "j \<le> ?n - 1" for j
      unfolding tr'
    proof (rule at_steps_return [OF _ j])
      fix i assume "i < ?n - 1"
      then have "Suc i < ?n" by simp
      from near [OF sc this] fresh complete(3) show "url \<notin> at_steps P ?tr i" by blast
    qed
    show ?thesis
    proof (rule gradedI)
      from act mono show "set (activeUrls s') \<subseteq> at_steps P (trace s') (layer s')"
        unfolding l' by blast
    next
      fix r assume "r \<in> set (resolved s')"
      then consider "r \<in> set (resolved s)" | "r = newUrls" by (auto simp: l')
      then show "set r \<subseteq> at_steps P (trace s') (layer s')"
      proof cases
        case 1
        from res [OF this] mono show ?thesis unfolding l' by blast
      next
        case 2
        show ?thesis
        proof
          fix v assume "v \<in> set r"
          with 2 have "v \<in> set newUrls" by simp
          moreover from at mono have "url \<in> at_steps P (trace s') (?n - 1)" by blast
          moreover have "Return ?n url newUrls \<in> set (trace s')" by (simp add: tr')
          ultimately have "v \<in> at_steps P (trace s') (Suc (?n - 1))"
            unfolding at_steps_Suc by blast
          with pos show "v \<in> at_steps P (trace s') (layer s')" by (simp add: l')
        qed
      qed
    next
      assume "0 < layer s'"
      from cur [OF pos] mono [of "?n - 1"] set_remove1_subset [of url "inFlight s"]
      show "set (currentBatch s') \<union> set (inFlight s') \<subseteq> at_steps P (trace s') (layer s' - 1)"
        unfolding l' by blast
    next
      from fresh set_remove1_subset [of url "inFlight s"]
      show "set (inFlight s') \<inter> set (earlier (trace s')) = {}"
        unfolding ea l' by blast
    next
      fix j assume sc: "in_scope P ?a" and "Suc j < layer s'"
      then have j: "Suc j < ?n" by (simp add: l')
      then have "j \<le> ?n - 1" by simp
      from near [OF sc j] show "at_steps P (trace s') j \<subseteq> set (earlier (trace s'))"
        unfolding st [OF sc \<open>j \<le> ?n - 1\<close>] ea .
    next
      assume sc: "in_scope P ?a"
      from last [OF sc pos]
      show "at_steps P (trace s') (layer s' - 1) \<subseteq>
          set (processings (trace s')) \<union> set (currentBatch s')"
        unfolding l' st [OF sc order_refl] .
    next
      show "at_batches (ranked P) (trace s')" unfolding tr' by (rule ext) simp
    qed
  next
    case (consume k)
    note s' = consume(4)
    let ?r = "resolved s ! k"
    let ?new = "add_new (visitedUrls (shared s)) ?r (activeUrls s)"
    let ?rest = "take k (resolved s) @ drop (Suc k) (resolved s)"
    define adds where "adds = drop (length (activeUrls s)) ?new"
    have tr': "trace s' = ?tr @ Read ?n ?r # map (Add ?n) adds"
      by (simp add: s' adds_def)
    have st: "at_steps P (trace s') j = at_steps P ?tr j" for j
      unfolding tr' by (rule at_steps_same) simp
    have ea: "earlier (trace s') = earlier ?tr"
      unfolding tr' by (rule earlier_append) (auto simp: is_batch_def)
    have l': "layer s' = ?n" "activeUrls s' = ?new" "resolved s' = ?rest"
      "inFlight s' = inFlight s" "currentBatch s' = currentBatch s"
      by (simp_all add: s')
    have p': "processings (trace s') = processings ?tr"
      unfolding tr' by simp
    from consume(3) have rk: "?r \<in> set (resolved s)" by simp
    show ?thesis
    proof (rule gradedI)
      show "set (activeUrls s') \<subseteq> at_steps P (trace s') (layer s')"
        unfolding st l'
      proof
        fix v assume "v \<in> set ?new"
        then consider "v \<in> set (activeUrls s)" | "v \<in> set ?r"
          using add_new_sound by blast
        then show "v \<in> at_steps P ?tr ?n"
        proof cases
          case 1
          with act show ?thesis by blast
        next
          case 2
          with res [OF rk] show ?thesis by blast
        qed
      qed
    next
      fix r assume "r \<in> set (resolved s')"
      then have "r \<in> set (resolved s)"
        using set_without_subset [of k "resolved s"] unfolding l' by blast
      then show "set r \<subseteq> at_steps P (trace s') (layer s')"
        unfolding st l' by (rule res)
    next
      assume "0 < layer s'"
      then have "0 < ?n" by (simp add: l')
      from cur [OF this]
      show "set (currentBatch s') \<union> set (inFlight s') \<subseteq> at_steps P (trace s') (layer s' - 1)"
        unfolding st l' .
    next
      show "set (inFlight s') \<inter> set (earlier (trace s')) = {}"
        unfolding ea l' by (rule fresh)
    next
      fix j assume "in_scope P ?a" "Suc j < layer s'"
      then have "in_scope P ?a" "Suc j < ?n" by (simp_all add: l')
      then show "at_steps P (trace s') j \<subseteq> set (earlier (trace s'))"
        unfolding st ea by (rule near)
    next
      assume "in_scope P ?a" "0 < layer s'"
      then have "in_scope P ?a" "0 < ?n" by (simp_all add: l')
      then show "at_steps P (trace s') (layer s' - 1) \<subseteq>
          set (processings (trace s')) \<union> set (currentBatch s')"
        unfolding st l' p' by (rule last)
    next
      show "at_batches (ranked P) (trace s')" unfolding tr' by (rule ext) auto
    qed
  qed
qed


subsection \<open>Runs\<close>

lemma example_run:
  "run example_platform (init example_platform) example_schedule = Some example_final"
  by code_simp

lemma run_waiting:
  "run example_platform (init example_platform) [NextBatch, CallNext] = Some example_waiting"
  by code_simp

lemma run_returned:
  "run example_platform (init example_platform)
     [NextBatch, CallNext, Complete START_URL (page_world ok_response links_page None)] =
   Some example_returned"
  by code_simp

lemma step_returned:
  "main_step example_platform example_waiting
     (Complete START_URL (page_world ok_response links_page None)) = Some example_returned"
  by code_simp

lemma step_read: "main_step example_platform example_returned (Consume 0) = Some example_read"
  by code_simp

lemma stuck_iff_finished:
  assumes "failure s = None"
  shows "(\<forall>a. main_step P s a = None) \<longleftrightarrow> finished s"
proof
  assume "finished s"
  then show "\<forall>a. main_step P s a = None"
    by (auto simp: main_step_def finished_def split: action.splits)
next
  assume stuck: "\<forall>a. main_step P s a = None"
  have r: "resolved s = []"
  proof (rule ccontr)
    assume "resolved s \<noteq> []"
    with assms have "main_step P s (Consume 0) \<noteq> None"
      by (simp add: main_step_def Let_def)
    with stuck show False by simp
  qed
  have i: "inFlight s = []"
  proof (rule ccontr)
    assume "inFlight s \<noteq> []"
    then obtain url rest where "inFlight s = url # rest" by (cases "inFlight s") auto
    with assms have "main_step P s (Complete url undefined) \<noteq> None"
      by (simp add: main_step_def split: prod.splits)
    with stuck show False by simp
  qed
  have c: "currentBatch s = []"
  proof (rule ccontr)
    assume "currentBatch s \<noteq> []"
    then obtain url rest where "currentBatch s = url # rest" by (cases "currentBatch s") auto
    with assms i have "main_step P s CallNext \<noteq> None"
      by (simp add: main_step_def MAX_CONCURRENCY_def split: sum.splits prod.splits)
    with stuck show False by simp
  qed
  have "activeUrls s = []"
  proof (rule ccontr)
    assume "activeUrls s \<noteq> []"
    with assms r i c have "main_step P s NextBatch \<noteq> None"
      by (simp add: main_step_def)
    with stuck show False by simp
  qed
  with r i c show "finished s" by (simp add: finished_def)
qed

lemma run_once:
  assumes "run P (init P) schedule = Some s"
  shows "once s"
  using assms once_init once_step by (rule run_invariant)

lemma run_layers:
  assumes "run P (init P) schedule = Some s"
  shows "once s \<and> layered P s \<and> sourced P s \<and> accounted P s \<and> graded P s"
  using assms
proof (rule run_invariant
    [where I = "\<lambda>s. once s \<and> layered P s \<and> sourced P s \<and> accounted P s \<and> graded P s"])
  show "once (init P) \<and> layered P (init P) \<and> sourced P (init P) \<and> accounted P (init P) \<and>
      graded P (init P)"
    by (simp add: once_init layered_init sourced_init accounted_init graded_init)
next
  fix s a s'
  assume "once s \<and> layered P s \<and> sourced P s \<and> accounted P s \<and> graded P s"
    "main_step P s a = Some s'"
  then show "once s' \<and> layered P s' \<and> sourced P s' \<and> accounted P s' \<and> graded P s'"
    by (auto intro: once_step layered_step sourced_step accounted_step graded_step)
qed

lemma run_scope:
  assumes "run P (init P) schedule = Some s"
  shows "\<forall>u\<in>visitedUrls (shared s). in_scope P u"
  using assms
  by (rule run_invariant [where I = "\<lambda>s. \<forall>u\<in>visitedUrls (shared s). in_scope P u"])
     (simp_all add: init_def scope_step)

text \<open>
  Claim C1. In every state a run reaches, no URL has begun processing twice, no call has
  completed twice, and no URL has two entries in \<^verbatim>\<open>scrapedData\<close>; the visited set is
  the set of URLs whose processing began, every completed call and every entry belongs to
  one of them, and every call that is waiting on the network (so every call that can
  complete) is of a URL already marked visited. A call of \<^verbatim>\<open>processUrl\<close> on a visited
  URL returns \<^verbatim>\<open>[]\<close> and changes nothing; a call that passes the test at the entry
  marks its URL, which was not visited, before anything else.
\<close>

theorem processed_at_most_once:
  "(run P (init P) schedule = Some s \<longrightarrow>
      distinct (processings (trace s)) \<and> distinct (completions (trace s)) \<and>
      distinct (map entry_url (scrapedData (shared s))) \<and>
      visitedUrls (shared s) = set (processings (trace s)) \<and>
      set (completions (trace s)) \<subseteq> set (processings (trace s)) \<and>
      set (map entry_url (scrapedData (shared s))) \<subseteq> set (completions (trace s)) \<and>
      set (inFlight s) \<subseteq> visitedUrls (shared s) \<and>
      (\<forall>u w s'. main_step P s (Complete u w) = Some s' \<longrightarrow> u \<in> visitedUrls (shared s))) \<and>
   (url \<in> visitedUrls g \<longrightarrow> processUrl P w g url = Inr ([], g)) \<and>
   (\<forall>g'. processUrl_enter P g url = Inr (True, g') \<longrightarrow>
      url \<notin> visitedUrls g \<and> g' = g\<lparr>visitedUrls := insert url (visitedUrls g)\<rparr>)"
proof (intro conjI impI allI)
  assume "run P (init P) schedule = Some s"
  then have o: "once s" by (rule run_once)
  then show "distinct (processings (trace s))" "distinct (completions (trace s))"
    "distinct (map entry_url (scrapedData (shared s)))"
    "visitedUrls (shared s) = set (processings (trace s))"
    "set (map entry_url (scrapedData (shared s))) \<subseteq> set (completions (trace s))"
    by (simp_all add: once_def)
  from o show "set (completions (trace s)) \<subseteq> set (processings (trace s))"
    by (auto simp: once_def)
  from o show f: "set (inFlight s) \<subseteq> visitedUrls (shared s)"
    by (auto simp: once_def)
  fix u w s' assume "main_step P s (Complete u w) = Some s'"
  then have "u \<in> set (inFlight s)"
    by (auto simp: main_step_def split: if_splits)
  with f show "u \<in> visitedUrls (shared s)" by blast
next
  assume "url \<in> visitedUrls g"
  then show "processUrl P w g url = Inr ([], g)"
    by (simp add: processUrl_def processUrl_enter_def)
next
  fix g' assume "processUrl_enter P g url = Inr (True, g')"
  from processUrl_enter_cases [OF this]
  show "url \<notin> visitedUrls g" "g' = g\<lparr>visitedUrls := insert url (visitedUrls g)\<rparr>"
    by simp_all
qed

text \<open>
  In the example run the start page and the second page each begin processing once, each
  has one entry, and a further call on the start URL returns \<^verbatim>\<open>[]\<close>.
\<close>

theorem processed_at_most_once_witness:
  "distinct (processings (trace example_final)) \<and>
   processings (trace example_final) = [START_URL, about_url] \<and>
   distinct (map entry_url (scrapedData (shared example_final))) \<and>
   processUrl example_platform (page_world ok_response links_page None)
     (shared example_final) START_URL = Inr ([], shared example_final)"
proof -
  from processed_at_most_once [of example_platform example_schedule example_final] example_run
  have a: "distinct (processings (trace example_final))"
    and b: "distinct (map entry_url (scrapedData (shared example_final)))"
    by blast+
  have "START_URL \<in> visitedUrls (shared example_final)"
    by (simp add: example_final_def)
  with processed_at_most_once [of _ _ _ START_URL "shared example_final"]
  have c: "processUrl example_platform (page_world ok_response links_page None)
     (shared example_final) START_URL = Inr ([], shared example_final)"
    by blast
  have d: "processings (trace example_final) = [START_URL, about_url]"
    by (simp add: example_final_def first_layer_def second_layer_def)
  show ?thesis by (intro conjI) (rule a, rule d, rule b, rule c)
qed

text \<open>
  Claim C10. In every state a run reaches, every visited URL is in scope: the start URL
  parses, and the URL is valid with it as base. The test comes before the mark: a call on
  a URL out of scope returns at once and leaves the globals as they were.
\<close>

theorem visited_in_scope:
  "(run P (init P) schedule = Some s \<longrightarrow>
      (\<forall>u\<in>visitedUrls (shared s).
         \<exists>b. URL_new P START_URL = Some b \<and> isValidUrlToCrawl P u b)) \<and>
   (\<forall>b started g'. URL_new P START_URL = Some b \<longrightarrow> \<not> isValidUrlToCrawl P url b \<longrightarrow>
      processUrl_enter P g url = Inr (started, g') \<longrightarrow> \<not> started \<and> g' = g)"
proof (intro conjI impI allI)
  assume "run P (init P) schedule = Some s"
  from run_scope [OF this]
  show "\<forall>u\<in>visitedUrls (shared s). \<exists>b. URL_new P START_URL = Some b \<and> isValidUrlToCrawl P u b"
    by (simp add: in_scope_def)
next
  fix b started g'
  assume "URL_new P START_URL = Some b" "\<not> isValidUrlToCrawl P url b"
    "processUrl_enter P g url = Inr (started, g')"
  then show "\<not> started" "g' = g"
    by (auto simp: processUrl_enter_def split: if_splits)
qed

text \<open>
  In the example run both visited URLs are in scope, and a call on the URL of another
  host marks nothing.
\<close>

theorem visited_in_scope_witness:
  "isValidUrlToCrawl example_platform START_URL start_obj \<and>
   isValidUrlToCrawl example_platform about_url start_obj \<and>
   processUrl_enter example_platform \<lparr>visitedUrls = {}, scrapedData = []\<rparr>
     ''https://other.com/zen.ac.jp/zen-gakuseibinran/p'' =
     Inr (False, \<lparr>visitedUrls = {}, scrapedData = []\<rparr>)"
proof -
  let ?E = example_platform
  from visited_in_scope [of ?E example_schedule example_final] example_run
  have "\<forall>u\<in>visitedUrls (shared example_final).
      \<exists>b. URL_new ?E START_URL = Some b \<and> isValidUrlToCrawl ?E u b"
    by blast
  then have a: "isValidUrlToCrawl ?E START_URL start_obj"
    and b: "isValidUrlToCrawl ?E about_url start_obj"
    by (simp_all add: example_final_def parse_start)
  let ?o = "''https://other.com/zen.ac.jp/zen-gakuseibinran/p''"
  let ?g = "\<lparr>visitedUrls = {}, scrapedData = []\<rparr>"
  have n: "\<not> isValidUrlToCrawl ?E ?o start_obj"
    by (simp add: isValidUrlToCrawl_def parse_other)
       (simp add: hostname_def http_url_def start_obj_def)
  have "\<exists>started g'. processUrl_enter ?E ?g ?o = Inr (started, g')"
    by (auto simp: processUrl_enter_def parse_start n)
  then obtain started g' where e: "processUrl_enter ?E ?g ?o = Inr (started, g')"
    by blast
  with visited_in_scope [of ?E _ _ ?o ?g] parse_start n
  have "\<not> started \<and> g' = ?g" by blast
  with e have c: "processUrl_enter ?E ?g ?o = Inr (False, ?g)" by simp
  show ?thesis by (intro conjI) (rule a, rule b, rule c)
qed



end
